theory Spec2Isabelle
  imports Complex_Main
begin

section \<open>The bulk insert builder of insert.go\<close>

text \<open>
  A shallow embedding of \<^verbatim>\<open>insert.go\<close> (package \<^verbatim>\<open>bulk\<close>): the struct \<^verbatim>\<open>Bulk\<close> and
  its three methods \<^verbatim>\<open>Init\<close>, \<^verbatim>\<open>PrepareValues\<close> and \<^verbatim>\<open>Insert\<close>.

  \<^item> Go strings are byte sequences: \<open>string\<close> (a list of 8-bit characters).
  \<^item> \<^verbatim>\<open>[]interface{}\<close> is a list over an arbitrary value type \<open>'v\<close>: the code only
    counts and forwards the values.
  \<^item> Go's \<^verbatim>\<open>int\<close> is modelled without wrap-around. The fields \<^verbatim>\<open>rows\<close> and
    \<^verbatim>\<open>valuesPerRow\<close> are natural numbers (\<^verbatim>\<open>valuesPerRow\<close> is always a \<^verbatim>\<open>len\<close>);
    expressions of the source that can be negative (\<^verbatim>\<open>len(s)-1\<close>, the result of
    \<^verbatim>\<open>strings.Index\<close>, the count given to \<^verbatim>\<open>strings.Repeat\<close>) are integers.
  \<^item> A run-time panic (slice bounds out of range, integer division by zero, negative
    \<^verbatim>\<open>Repeat\<close> count) is a value: \<open>None\<close> for the helpers, \<open>GoPanic\<close> for \<^verbatim>\<open>Insert\<close>.
  \<^item> The database (\<^verbatim>\<open>*sql.DB\<close>) is an external collaborator: a state \<open>'d\<close> with the two
    operations \<^verbatim>\<open>Prepare\<close> and \<^verbatim>\<open>Exec\<close>, each of which may return an error \<open>'e\<close>.
    \<^verbatim>\<open>Insert\<close> also returns the list of the calls it made, with their replies.
\<close>

subsection \<open>The Go library functions that the code calls\<close>

text \<open>\<^verbatim>\<open>s[lo:hi]\<close>: panics unless \<open>0 \<le> lo \<le> hi \<le> len(s)\<close>. (For a slice Go compares \<open>hi\<close>
  with the capacity; the model has no capacity and takes the length.)\<close>

definition slice_go :: "'a list \<Rightarrow> int \<Rightarrow> int \<Rightarrow> 'a list option" where
  "slice_go s lo hi =
     (if 0 \<le> lo \<and> lo \<le> hi \<and> hi \<le> int (length s)
      then Some (take (nat (hi - lo)) (drop (nat lo) s)) else None)"

text \<open>\<^verbatim>\<open>s[lo:]\<close>, which is \<^verbatim>\<open>s[lo:len(s)]\<close>.\<close>

definition slice_from :: "'a list \<Rightarrow> int \<Rightarrow> 'a list option" where
  "slice_from s lo = slice_go s lo (int (length s))"

text \<open>\<^verbatim>\<open>s[0 : len(s)-1]\<close> and \<^verbatim>\<open>s[:len(s)-1]\<close>, the trim of the last character.\<close>

definition trim_last :: "'a list \<Rightarrow> 'a list option" where
  "trim_last s = slice_go s 0 (int (length s) - 1)"

text \<open>\<^verbatim>\<open>strings.HasPrefix(s, sub)\<close>.\<close>

definition HasPrefix :: "string \<Rightarrow> string \<Rightarrow> bool" where
  "HasPrefix s sub = (take (length sub) s = sub)"

text \<open>\<^verbatim>\<open>strings.Index(s, sub)\<close>: the index of the first occurrence of \<open>sub\<close> in \<open>s\<close>,
  or \<open>-1\<close>.\<close>

fun Index_go :: "string \<Rightarrow> string \<Rightarrow> int" where
  "Index_go [] sub = (if sub = [] then 0 else -1)"
| "Index_go (c # s) sub =
     (if HasPrefix (c # s) sub then 0
      else (let r = Index_go s sub in if r < 0 then -1 else r + 1))"

text \<open>\<^verbatim>\<open>strings.Join(elems, sep)\<close>.\<close>

fun Join_go :: "string list \<Rightarrow> string \<Rightarrow> string" where
  "Join_go [] sep = []"
| "Join_go [x] sep = x"
| "Join_go (x # y # ys) sep = x @ sep @ Join_go (y # ys) sep"

text \<open>\<^verbatim>\<open>strings.Repeat(s, count)\<close>: panics on a negative count.\<close>

definition Repeat_go :: "string \<Rightarrow> int \<Rightarrow> string option" where
  "Repeat_go s count = (if count < 0 then None else Some (concat (replicate (nat count) s)))"

text \<open>\<^verbatim>\<open>strings.Split(s, sep)\<close> for a non-empty separator: the pieces of \<open>s\<close> between the
  occurrences of \<open>sep\<close>, found from left to right. \<open>Split_from sep cur s\<close> scans \<open>s\<close> with
  the piece \<open>cur\<close> read so far. (The code only splits on \<^verbatim>\<open>","\<close> and \<^verbatim>\<open>", "\<close>; for the
  empty separator, where Go splits into characters, the model returns the whole string.)\<close>

function Split_from :: "string \<Rightarrow> string \<Rightarrow> string \<Rightarrow> string list" where
  "Split_from sep cur [] = [cur]"
| "Split_from sep cur (c # s) =
     (if sep \<noteq> [] \<and> HasPrefix (c # s) sep
      then cur # Split_from sep [] (drop (length sep) (c # s))
      else Split_from sep (cur @ [c]) s)"
  by pat_completeness auto
termination
  by (relation "measure (\<lambda>(sep, cur, s). length s)") (auto simp: HasPrefix_def)

definition Split_go :: "string \<Rightarrow> string \<Rightarrow> string list" where
  "Split_go s sep = Split_from sep [] s"

text \<open>Modelled from the spec: \<^verbatim>\<open>helper.RoundUp\<close> of the package
  \<^verbatim>\<open>github.com/daniloor/helper\<close>, which is not part of the sources; the specification
  gives the number of batches as the ceiling of the quotient. The quotient
  \<^verbatim>\<open>float64(len(b.vals)) / float64(PLACEHOLDER_LIMIT)\<close> is taken exactly.\<close>

definition RoundUp :: "real \<Rightarrow> int" where
  "RoundUp x = \<lceil>x\<rceil>"

subsection \<open>The builder\<close>

definition PLACEHOLDER_LIMIT :: nat where
  "PLACEHOLDER_LIMIT = 60000"

record 'v Bulk =
  initStr :: string
  placeholderStr :: string
  vals :: "'v list"
  rows :: nat
  valuesPerRow :: nat
  placeholderStrHelper :: string

text \<open>The zero value of the struct, as \<^verbatim>\<open>var b Bulk\<close> or \<^verbatim>\<open>new(Bulk)\<close> creates it.\<close>

definition Bulk_zero :: "'v Bulk" where
  "Bulk_zero = \<lparr>initStr = [], placeholderStr = [], vals = [], rows = 0, valuesPerRow = 0,
     placeholderStrHelper = []\<rparr>"

text \<open>\<^verbatim>\<open>Init\<close> sets five of the six fields (not \<^verbatim>\<open>placeholderStr\<close>). With no column,
  \<^verbatim>\<open>strings.Repeat(",?", -1)\<close> panics.\<close>

definition Init :: "'v Bulk \<Rightarrow> string \<Rightarrow> string list \<Rightarrow> 'v Bulk option" where
  "Init b tableName s =
     (case Repeat_go '',?'' (int (length s) - 1) of
        None \<Rightarrow> None
      | Some r \<Rightarrow> Some (b\<lparr>initStr := ''INSERT INTO '' @ tableName @ ''('' @ Join_go s '', '' @ '') VALUES '',
                        vals := [],
                        valuesPerRow := length s,
                        rows := 0,
                        placeholderStrHelper := ''(?'' @ r @ ''),''\<rparr>))"

text \<open>The error of \<^verbatim>\<open>PrepareValues\<close>, built by \<^verbatim>\<open>fmt.Errorf\<close> from the two counts
  \<^verbatim>\<open>len(vals)\<close> (inserted) and \<^verbatim>\<open>b.valuesPerRow\<close> (required).\<close>

datatype arity_error = WrongAmount (inserted: nat) (required: nat)

definition PrepareValues :: "'v Bulk \<Rightarrow> 'v list \<Rightarrow> arity_error option \<times> 'v Bulk" where
  "PrepareValues b vs =
     (if length vs \<noteq> valuesPerRow b then (Some (WrongAmount (length vs) (valuesPerRow b)), b)
      else (None, b\<lparr>placeholderStr := placeholderStr b @ placeholderStrHelper b,
                    vals := vals b @ vs,
                    rows := rows b + 1\<rparr>))"

subsection \<open>The executor\<close>

text \<open>The database handle: \<^verbatim>\<open>db.Prepare(str)\<close> and \<^verbatim>\<open>stmt.Exec(vals...)\<close> act on a state
  \<open>'d\<close> and reply with an error or with none. The prepared statement is identified with
  its text.\<close>

record ('d, 'v, 'e) executor =
  prepare :: "'d \<Rightarrow> string \<Rightarrow> 'd \<times> 'e option"
  exec :: "'d \<Rightarrow> string \<Rightarrow> 'v list \<Rightarrow> 'd \<times> 'e option"

text \<open>A call that \<^verbatim>\<open>Insert\<close> made, with the reply it got.\<close>

datatype ('v, 'e) call =
  Prepare string "'e option"
| Exec string "'v list" "'e option"

text \<open>What a call of \<^verbatim>\<open>Insert\<close> ends with: \<^verbatim>\<open>return nil\<close>, \<^verbatim>\<open>return err\<close>, or a panic.\<close>

datatype 'e outcome = ReturnNil | ReturnErr 'e | GoPanic

text \<open>Lines 60 to 68 and 106 to 114: prepare the statement, and execute it unless the
  preparation failed. The result is the error (if any), the new state of the database and
  the calls made.\<close>

definition run_stmt ::
  "('d, 'v, 'e) executor \<Rightarrow> 'd \<Rightarrow> string \<Rightarrow> 'v list \<Rightarrow> 'e option \<times> 'd \<times> ('v, 'e) call list" where
  "run_stmt ex d str vs =
     (case prepare ex d str of
        (d1, Some e) \<Rightarrow> (Some e, d1, [Prepare str (Some e)])
      | (d1, None) \<Rightarrow>
          (case exec ex d1 str vs of
             (d2, r) \<Rightarrow> (r, d2, [Prepare str None, Exec str vs r])))"

subsection \<open>The upsert clause\<close>

text \<open>Lines 48 to 50 and 94 to 96: the text between the first \<^verbatim>\<open>(\<close> and the first \<^verbatim>\<open>)\<close>
  of the statement prefix.\<close>

definition columnsStr :: "string \<Rightarrow> string option" where
  "columnsStr init =
     (let firstIndex = Index_go init ''('';
          secondIndex = Index_go init '')''
      in slice_go init (firstIndex + 1) secondIndex)"

text \<open>Lines 52 to 56 and 98 to 102: one term per column, then the trim of the last
  character.\<close>

definition endStr :: "string list \<Rightarrow> string option" where
  "endStr columns =
     trim_last (foldl (\<lambda>e v. e @ v @ ''=VALUES('' @ v @ ''),'') '' ON DUPLICATE KEY UPDATE '' columns)"

text \<open>The block under \<^verbatim>\<open>if replaceOnDuplicate\<close>, which the two paths of \<^verbatim>\<open>Insert\<close> repeat
  with a different separator given to \<^verbatim>\<open>strings.Split\<close>.\<close>

definition add_upsert :: "string \<Rightarrow> string \<Rightarrow> string \<Rightarrow> string option" where
  "add_upsert sep init str =
     (case columnsStr init of
        None \<Rightarrow> None
      | Some cs \<Rightarrow>
          (case endStr (Split_go cs sep) of
             None \<Rightarrow> None
           | Some e \<Rightarrow> Some (str @ e)))"

subsection \<open>Insert\<close>

text \<open>Lines 43 to 58: the statement of the path for fewer than \<^verbatim>\<open>PLACEHOLDER_LIMIT\<close>
  values, from the trimmed placeholder text. That path splits the columns on \<^verbatim>\<open>","\<close>.\<close>

definition single_stmt :: "'v Bulk \<Rightarrow> bool \<Rightarrow> string option" where
  "single_stmt b replaceOnDuplicate =
     (let str = initStr b @ placeholderStr b
      in if replaceOnDuplicate then add_upsert '','' (initStr b) str else Some str)"

text \<open>Lines 80 to 104: the statement and the values of batch \<open>i\<close>. That path splits the
  columns on \<^verbatim>\<open>", "\<close>.\<close>

definition batch_stmt ::
  "'v Bulk \<Rightarrow> bool \<Rightarrow> nat \<Rightarrow> nat \<Rightarrow> nat \<Rightarrow> nat \<Rightarrow> (string \<times> 'v list) option" where
  "batch_stmt b replaceOnDuplicate batchs rowsPerBatch charactersPerBatch i =
     (case (if int i = int batchs - 1
            then (slice_from (placeholderStr b) (int (charactersPerBatch * i)),
                  slice_from (vals b) (int (rowsPerBatch * valuesPerRow b * i)))
            else (slice_go (placeholderStr b) (int (charactersPerBatch * i))
                    (int (charactersPerBatch * (i + 1))),
                  slice_go (vals b) (int (rowsPerBatch * valuesPerRow b * i))
                    (int (rowsPerBatch * valuesPerRow b * (i + 1))))) of
        (Some p, Some vs) \<Rightarrow>
          (case trim_last (initStr b @ p) of
             None \<Rightarrow> None
           | Some str \<Rightarrow>
               (case (if replaceOnDuplicate then add_upsert '', '' (initStr b) str else Some str) of
                  None \<Rightarrow> None
                | Some str' \<Rightarrow> Some (str', vs)))
      | _ \<Rightarrow> None)"

text \<open>Lines 79 to 115: the loop over the batches, from batch \<open>i\<close> on, with the state \<open>d\<close> of
  the database and the calls \<open>tr\<close> made so far. It stops at the first error.\<close>

function Insert_loop ::
  "('d, 'v, 'e) executor \<Rightarrow> 'v Bulk \<Rightarrow> bool \<Rightarrow> nat \<Rightarrow> nat \<Rightarrow> nat \<Rightarrow> nat \<Rightarrow> 'd \<Rightarrow> ('v, 'e) call list
     \<Rightarrow> 'e outcome \<times> 'd \<times> ('v, 'e) call list" where
  "Insert_loop ex b replaceOnDuplicate batchs rowsPerBatch charactersPerBatch i d tr =
     (if i < batchs then
        (case batch_stmt b replaceOnDuplicate batchs rowsPerBatch charactersPerBatch i of
           None \<Rightarrow> (GoPanic, d, tr)
         | Some (str, vs) \<Rightarrow>
             (case run_stmt ex d str vs of
                (Some e, d', calls) \<Rightarrow> (ReturnErr e, d', tr @ calls)
              | (None, d', calls) \<Rightarrow>
                  Insert_loop ex b replaceOnDuplicate batchs rowsPerBatch charactersPerBatch
                    (i + 1) d' (tr @ calls)))
      else (ReturnNil, d, tr))"
  by pat_completeness auto
termination
  by (relation "measure (\<lambda>(ex, b, r, batchs, rpb, cpb, i, d, tr). batchs - i)") auto

declare Insert_loop.simps [simp del]

text \<open>\<^verbatim>\<open>Insert\<close>: the outcome, the builder (the first path overwrites \<^verbatim>\<open>placeholderStr\<close>
  with its trim), the state of the database and the calls made.\<close>

definition Insert ::
  "('d, 'v, 'e) executor \<Rightarrow> 'd \<Rightarrow> 'v Bulk \<Rightarrow> bool
     \<Rightarrow> 'e outcome \<times> 'v Bulk \<times> 'd \<times> ('v, 'e) call list" where
  "Insert ex d b replaceOnDuplicate =
     (if length (vals b) < PLACEHOLDER_LIMIT then
        (case trim_last (placeholderStr b) of
           None \<Rightarrow> (GoPanic, b, d, [])
         | Some p \<Rightarrow>
             (let b1 = b\<lparr>placeholderStr := p\<rparr> in
              case single_stmt b1 replaceOnDuplicate of
                None \<Rightarrow> (GoPanic, b1, d, [])
              | Some str \<Rightarrow>
                  (case run_stmt ex d str (vals b1) of
                     (Some e, d', calls) \<Rightarrow> (ReturnErr e, b1, d', calls)
                   | (None, d', calls) \<Rightarrow> (ReturnNil, b1, d', calls))))
      else
        (let batchsF = real (length (vals b)) / real PLACEHOLDER_LIMIT;
             batchs = nat (RoundUp batchsF)
         in if valuesPerRow b = 0 then (GoPanic, b, d, [])
            else
              (let rowsPerBatch = PLACEHOLDER_LIMIT div valuesPerRow b;
                   charactersPerPlaceholder = 2 * (valuesPerRow b + 1);
                   charactersPerBatch = rowsPerBatch * charactersPerPlaceholder
               in case Insert_loop ex b replaceOnDuplicate batchs rowsPerBatch charactersPerBatch 0 d [] of
                    (out, d', calls) \<Rightarrow> (out, b, d', calls))))"

subsection \<open>What the properties speak about\<close>

text \<open>A sequence of accumulations, each accepted or rejected, and the number of the
  accepted ones.\<close>

fun PrepareValues_all :: "'v Bulk \<Rightarrow> 'v list list \<Rightarrow> 'v Bulk" where
  "PrepareValues_all b [] = b"
| "PrepareValues_all b (r # rs) = PrepareValues_all (snd (PrepareValues b r)) rs"

fun accepted :: "'v Bulk \<Rightarrow> 'v list list \<Rightarrow> nat" where
  "accepted b [] = 0"
| "accepted b (r # rs) =
     (case PrepareValues b r of
        (None, b') \<Rightarrow> Suc (accepted b' rs)
      | (Some e, b') \<Rightarrow> accepted b' rs)"

text \<open>The state of a builder between \<^verbatim>\<open>Init\<close> and \<^verbatim>\<open>Insert\<close>: the placeholder group of
  \<^verbatim>\<open>valuesPerRow\<close> markers, one copy of it per row in the buffer, \<^verbatim>\<open>valuesPerRow\<close> values
  per row, and a statement prefix.\<close>

definition placeholder_group :: "nat \<Rightarrow> string" where
  "placeholder_group n = ''(?'' @ concat (replicate (n - 1) '',?'') @ ''),''"

definition accumulated :: "'v Bulk \<Rightarrow> bool" where
  "accumulated b \<longleftrightarrow>
     1 \<le> valuesPerRow b \<and>
     placeholderStrHelper b = placeholder_group (valuesPerRow b) \<and>
     placeholderStr b = concat (replicate (rows b) (placeholderStrHelper b)) \<and>
     length (vals b) = rows b * valuesPerRow b \<and>
     initStr b \<noteq> []"

text \<open>The number of batches, and batch \<open>i\<close>, as the second path of \<^verbatim>\<open>Insert\<close> computes
  them from the builder.\<close>

definition batchs_of :: "'v Bulk \<Rightarrow> nat" where
  "batchs_of b = nat (RoundUp (real (length (vals b)) / real PLACEHOLDER_LIMIT))"

definition rowsPerBatch_of :: "'v Bulk \<Rightarrow> nat" where
  "rowsPerBatch_of b = PLACEHOLDER_LIMIT div valuesPerRow b"

definition batch :: "'v Bulk \<Rightarrow> bool \<Rightarrow> nat \<Rightarrow> (string \<times> 'v list) option" where
  "batch b replaceOnDuplicate i =
     batch_stmt b replaceOnDuplicate (batchs_of b) (rowsPerBatch_of b)
       (rowsPerBatch_of b * (2 * (valuesPerRow b + 1))) i"

text \<open>The clause that \<^verbatim>\<open>Insert\<close> appends when \<^verbatim>\<open>replaceOnDuplicate\<close> is set and the
  re-parsing of the prefix does not panic, for the separator \<open>sep\<close> of the path; and what
  either path appends to the placeholder text.\<close>

definition upsert_clause :: "string \<Rightarrow> string \<Rightarrow> string" where
  "upsert_clause sep init =
     (case columnsStr init of
        None \<Rightarrow> []
      | Some cs \<Rightarrow> (case endStr (Split_go cs sep) of None \<Rightarrow> [] | Some e \<Rightarrow> e))"

definition appended :: "string \<Rightarrow> 'v Bulk \<Rightarrow> bool \<Rightarrow> string" where
  "appended sep b replaceOnDuplicate =
     (if replaceOnDuplicate then upsert_clause sep (initStr b) else [])"

text \<open>The calls of batches that were prepared and executed without an error.\<close>

definition ok_calls :: "(string \<times> 'v list) list \<Rightarrow> ('v, 'e) call list" where
  "ok_calls bs = concat (map (\<lambda>(s, vs). [Prepare s None, Exec s vs None]) bs)"

text \<open>The reply to a call, and the statements prepared and the value lists executed, in
  the order of the calls.\<close>

fun reply :: "('v, 'e) call \<Rightarrow> 'e option" where
  "reply (Prepare s r) = r"
| "reply (Exec s vs r) = r"

fun prepared :: "('v, 'e) call list \<Rightarrow> string list" where
  "prepared [] = []"
| "prepared (Prepare s r # tr) = s # prepared tr"
| "prepared (Exec s vs r # tr) = prepared tr"

fun executed :: "('v, 'e) call list \<Rightarrow> 'v list list" where
  "executed [] = []"
| "executed (Prepare s r # tr) = executed tr"
| "executed (Exec s vs r # tr) = vs # executed tr"

text \<open>The number of placeholder markers of a text.\<close>

definition markers :: "string \<Rightarrow> nat" where
  "markers s = length (filter (\<lambda>c. c = CHR ''?'') s)"

text \<open>An executor that never fails.\<close>

definition succeeds :: "('d, 'v, 'e) executor \<Rightarrow> bool" where
  "succeeds ex \<longleftrightarrow> (\<forall>d s. snd (prepare ex d s) = None) \<and> (\<forall>d s vs. snd (exec ex d s vs) = None)"

text \<open>The upsert clause as the specification words it: after the keyword, one term
  \<^verbatim>\<open><column>=VALUES(<column>)\<close> per column, joined by commas, with no trailing
  separator.\<close>

definition upsert_of :: "string list \<Rightarrow> string" where
  "upsert_of columns =
     '' ON DUPLICATE KEY UPDATE '' @ Join_go (map (\<lambda>c. c @ ''=VALUES('' @ c @ '')'') columns) '',''"

subsection \<open>Builders and executors of the examples\<close>

text \<open>A new builder, initialized for the table and the columns, after \<open>n\<close> accumulations of
  the same row.\<close>

definition filled :: "string \<Rightarrow> string list \<Rightarrow> nat \<Rightarrow> 'v list \<Rightarrow> 'v Bulk" where
  "filled tableName columns n row =
     (case Init Bulk_zero tableName columns of
        None \<Rightarrow> Bulk_zero
      | Some b \<Rightarrow> PrepareValues_all b (replicate n row))"

text \<open>A database that accepts every statement, and one whose state counts the calls of
  \<^verbatim>\<open>Prepare\<close> and that fails on the call number \<open>n\<close> (from 0).\<close>

definition accepting :: "(unit, 'v, string) executor" where
  "accepting = \<lparr>prepare = (\<lambda>d s. (d, None)), exec = (\<lambda>d s vs. (d, None))\<rparr>"


section \<open>Slices, initialization and accumulation\<close>

lemma slice_go_nat:
  "slice_go s (int a) (int b) = (if a \<le> b \<and> b \<le> length s then Some (take (b - a) (drop a s)) else None)"
  by (auto simp: slice_go_def nat_diff_distrib' simp flip: of_nat_diff)

lemma slice_from_nat:
  "slice_from s (int a) = (if a \<le> length s then Some (drop a s) else None)"
  by (simp add: slice_from_def slice_go_nat)

lemma trim_last_eq:
  "trim_last s = (if s = [] then None else Some (butlast s))"
  by (cases s rule: rev_cases) (auto simp: trim_last_def slice_go_def butlast_conv_take nat_diff_distrib')

lemma PrepareValues_reject:
  "length vs \<noteq> valuesPerRow b \<Longrightarrow> PrepareValues b vs = (Some (WrongAmount (length vs) (valuesPerRow b)), b)"
  by (simp add: PrepareValues_def)

lemma concat_replicate_Suc: "concat (replicate (Suc n) h) = concat (replicate n h) @ h"
  by (induction n) simp_all

lemma accumulated_PrepareValues:
  "accumulated b \<Longrightarrow> accumulated (snd (PrepareValues b vs))"
  by (auto simp: accumulated_def PrepareValues_def concat_replicate_Suc simp del: replicate.simps)

lemma length_placeholder_group: "1 \<le> n \<Longrightarrow> length (placeholder_group n) = 2 * (n + 1)"
  by (simp add: placeholder_group_def length_concat sum_list_replicate)

lemma Init_zero:
  "s \<noteq> [] \<Longrightarrow> Init b t s = Some (b\<lparr>initStr := ''INSERT INTO '' @ t @ ''('' @ Join_go s '', '' @ '') VALUES '',
                        vals := [],
                        valuesPerRow := length s,
                        rows := 0,
                        placeholderStrHelper := placeholder_group (length s)\<rparr>)"
  by (cases s) (auto simp: Init_def Repeat_go_def placeholder_group_def)

lemma Init_none: "Init b t [] = None"
  by (simp add: Init_def Repeat_go_def)

lemma accumulated_Init:
  "Init b t s = Some b' \<Longrightarrow> placeholderStr b = [] \<Longrightarrow> accumulated b'"
  by (cases "s = []") (auto simp: Init_none Init_zero accumulated_def Suc_le_eq)

section \<open>Repeated groups and the number of batches\<close>

lemma drop_concat_replicate:
  "drop (a * length h) (concat (replicate n h)) = concat (replicate (n - a) h)"
proof (induction n arbitrary: a)
  case 0 then show ?case by simp
next
  case (Suc n)
  show ?case
  proof (cases a)
    case 0 then show ?thesis by simp
  next
    case (Suc a')
    then show ?thesis using Suc.IH[of a'] by simp
  qed
qed

lemma take_concat_replicate:
  "a \<le> n \<Longrightarrow> take (a * length h) (concat (replicate n h)) = concat (replicate a h)"
proof (induction n arbitrary: a)
  case 0 then show ?case by simp
next
  case (Suc n)
  show ?case
  proof (cases a)
    case 0 then show ?thesis by simp
  next
    case (Suc a')
    then show ?thesis using Suc.IH[of a'] Suc.prems by simp
  qed
qed

lemma length_concat_replicate: "length (concat (replicate n h)) = n * length h"
  by (induction n) simp_all

lemma PLACEHOLDER_LIMIT_pos: "0 < PLACEHOLDER_LIMIT"
  by (simp add: PLACEHOLDER_LIMIT_def)

lemma batchs_of_unique:
  assumes "m * PLACEHOLDER_LIMIT < length (vals b) + PLACEHOLDER_LIMIT"
    and "length (vals b) \<le> m * PLACEHOLDER_LIMIT"
  shows "batchs_of b = m"
proof -
  let ?n = "length (vals b)" and ?L = "PLACEHOLDER_LIMIT"
  have L: "0 < real ?L" using PLACEHOLDER_LIMIT_pos by simp
  have "real (m * ?L) < real (?n + ?L)" using assms(1) by (simp only: of_nat_less_iff)
  then have "real m * real ?L < real ?n + real ?L" by simp
  then have 1: "real_of_int (int m) - 1 < real ?n / real ?L"
    using L by (simp add: field_simps)
  have "real ?n \<le> real (m * ?L)" using assms(2) by (simp only: of_nat_le_iff)
  then have 2: "real ?n / real ?L \<le> real_of_int (int m)"
    using L by (simp add: field_simps)
  have "\<lceil>real ?n / real ?L\<rceil> = int m" using 1 2 by (rule ceiling_unique)
  then show ?thesis by (simp add: batchs_of_def RoundUp_def)
qed

lemma batchs_of_upper: "length (vals b) \<le> batchs_of b * PLACEHOLDER_LIMIT"
proof -
  let ?n = "length (vals b)" and ?L = "PLACEHOLDER_LIMIT"
  have L: "0 < real ?L" using PLACEHOLDER_LIMIT_pos by simp
  have "0 \<le> real ?n / real ?L" by simp
  then have "- 1 < real ?n / real ?L" by linarith
  then have nn: "0 \<le> \<lceil>real ?n / real ?L\<rceil>" by (simp only: zero_le_ceiling)
  have "real ?n / real ?L \<le> real_of_int \<lceil>real ?n / real ?L\<rceil>" by (rule le_of_int_ceiling)
  also have "\<dots> = real (batchs_of b)" using nn by (simp add: batchs_of_def RoundUp_def)
  finally have "real ?n \<le> real (batchs_of b) * real ?L" using L by (simp add: field_simps)
  then have "real ?n \<le> real (batchs_of b * ?L)" by simp
  then show ?thesis by (simp only: of_nat_le_iff)
qed

lemma batchs_of_lower:
  assumes "0 < length (vals b)"
  shows "0 < batchs_of b \<and> (batchs_of b - 1) * PLACEHOLDER_LIMIT < length (vals b)"
proof -
  let ?n = "length (vals b)" and ?L = "PLACEHOLDER_LIMIT"
  have L: "0 < real ?L" using PLACEHOLDER_LIMIT_pos by simp
  have pos: "0 < real ?n / real ?L" using L assms by simp
  then have cpos: "0 < \<lceil>real ?n / real ?L\<rceil>" by (simp add: ceiling_less_iff)
  then have b: "0 < batchs_of b" by (simp add: batchs_of_def RoundUp_def)
  have eq: "real_of_int \<lceil>real ?n / real ?L\<rceil> = real (batchs_of b)"
    using cpos by (simp add: batchs_of_def RoundUp_def)
  have "real_of_int \<lceil>real ?n / real ?L\<rceil> - 1 < real ?n / real ?L" by linarith
  then have "real (batchs_of b) - 1 < real ?n / real ?L" using eq by simp
  then have lt: "(real (batchs_of b) - 1) * real ?L < real ?n"
    using L by (simp only: pos_less_divide_eq)
  have "real (batchs_of b - 1) = real (batchs_of b) - 1"
    using b by (simp only: of_nat_diff Suc_leI of_nat_1 One_nat_def)
  then have "real ((batchs_of b - 1) * ?L) = (real (batchs_of b) - 1) * real ?L"
    by (simp only: of_nat_mult)
  with lt have "real ((batchs_of b - 1) * ?L) < real ?n" by (simp only:)
  then have "(batchs_of b - 1) * ?L < ?n" by (simp only: of_nat_less_iff)
  with b show ?thesis by (rule conjI)
qed

section \<open>The batches of an accumulated builder\<close>

lemma foldl_terms_nonempty:
  "e \<noteq> [] \<Longrightarrow> foldl (\<lambda>e v. e @ v @ ''=VALUES('' @ v @ ''),'') e columns \<noteq> []"
  by (induction columns arbitrary: e) simp_all

lemma endStr_Some: "endStr columns \<noteq> None"
  using foldl_terms_nonempty[of "'' ON DUPLICATE KEY UPDATE ''" columns]
  by (simp add: endStr_def trim_last_eq)

lemma add_upsert_clause:
  "columnsStr init \<noteq> None \<Longrightarrow> add_upsert sep init str = Some (str @ upsert_clause sep init)"
  using endStr_Some[of "Split_go (the (columnsStr init)) sep"]
  by (auto simp: add_upsert_def upsert_clause_def split: option.splits)

lemma add_upsert_None:
  "columnsStr init = None \<Longrightarrow> add_upsert sep init str = None"
  by (simp add: add_upsert_def)

lemma rows_bound:
  assumes acc: "accumulated b" and big: "PLACEHOLDER_LIMIT \<le> length (vals b)"
  shows "rowsPerBatch_of b * (batchs_of b - 1) < rows b"
proof -
  let ?k = "valuesPerRow b" and ?L = PLACEHOLDER_LIMIT
  from acc have k: "1 \<le> ?k" and n: "length (vals b) = rows b * ?k"
    by (simp_all add: accumulated_def)
  have "0 < length (vals b)" using big PLACEHOLDER_LIMIT_pos by linarith
  then have lo: "(batchs_of b - 1) * ?L < rows b * ?k"
    using batchs_of_lower[of b] n by simp
  have "rowsPerBatch_of b * ?k \<le> ?L"
    by (simp add: rowsPerBatch_of_def)
  then have "(rowsPerBatch_of b * ?k) * (batchs_of b - 1) \<le> ?L * (batchs_of b - 1)"
    by (rule mult_le_mono1)
  moreover have "(rowsPerBatch_of b * ?k) * (batchs_of b - 1) = (rowsPerBatch_of b * (batchs_of b - 1)) * ?k"
    by (simp only: mult_ac)
  moreover have "?L * (batchs_of b - 1) = (batchs_of b - 1) * ?L"
    by (simp only: mult_ac)
  ultimately have "(rowsPerBatch_of b * (batchs_of b - 1)) * ?k < rows b * ?k"
    using lo by linarith
  then show ?thesis by (simp only: mult_less_cancel2)
qed

lemma batch_nonlast:
  assumes acc: "accumulated b" and big: "PLACEHOLDER_LIMIT \<le> length (vals b)"
    and i: "Suc i < batchs_of b"
    and up: "replaceOnDuplicate \<longrightarrow> columnsStr (initStr b) \<noteq> None"
  shows "batch b replaceOnDuplicate i =
     Some (butlast (initStr b @ concat (replicate (rowsPerBatch_of b) (placeholderStrHelper b)))
             @ appended '', '' b replaceOnDuplicate,
           take (rowsPerBatch_of b * valuesPerRow b) (drop (rowsPerBatch_of b * valuesPerRow b * i) (vals b)))"
proof -
  let ?k = "valuesPerRow b" and ?h = "placeholderStrHelper b" and ?r = "rowsPerBatch_of b"
  from acc have k: "1 \<le> ?k" and n: "length (vals b) = rows b * ?k"
    and P: "placeholderStr b = concat (replicate (rows b) ?h)"
    and h: "?h = placeholder_group ?k" and ne: "initStr b \<noteq> []"
    by (simp_all add: accumulated_def)
  have lh: "2 * (?k + 1) = length ?h" using k h by (simp add: length_placeholder_group)
  have "?r * Suc i \<le> ?r * (batchs_of b - 1)" using i by (intro mult_le_mono2) simp
  with rows_bound[OF acc big] have rb: "?r * Suc i \<le> rows b" by simp
  have rb': "?r * i + ?r \<le> rows b" using rb by simp
  have cut: "int i \<noteq> int (batchs_of b) - 1" using i by simp
  have s1: "slice_go (placeholderStr b) (int (?r * length ?h * i)) (int (?r * length ?h * (i + 1)))
        = Some (concat (replicate ?r ?h))"
  proof -
    have "(?r * Suc i) * length ?h \<le> rows b * length ?h" using rb by (rule mult_le_mono1)
    moreover have "(?r * Suc i) * length ?h = ?r * length ?h * (i + 1)" by (simp only: mult_ac Suc_eq_plus1)
    ultimately have le: "?r * length ?h * (i + 1) \<le> length (placeholderStr b)"
      by (simp only: P length_concat_replicate)
    have "drop (?r * length ?h * i) (placeholderStr b) = concat (replicate (rows b - ?r * i) ?h)"
      using drop_concat_replicate[of "?r * i" ?h "rows b"] by (simp add: P mult_ac)
    moreover have "?r * length ?h * (i + 1) - ?r * length ?h * i = ?r * length ?h"
      by (simp add: algebra_simps)
    moreover have "?r \<le> rows b - ?r * i" using rb' by simp
    ultimately show ?thesis using le
      unfolding slice_go_nat by (simp add: take_concat_replicate del: mult_Suc_right of_nat_mult of_nat_add)
  qed
  have s2: "slice_go (vals b) (int (?r * ?k * i)) (int (?r * ?k * (i + 1)))
        = Some (take (?r * ?k) (drop (?r * ?k * i) (vals b)))"
  proof -
    have "?r * Suc i * ?k \<le> rows b * ?k" using rb by (rule mult_le_mono1)
    moreover have "?r * Suc i * ?k = ?r * ?k * (i + 1)" by (simp only: mult_ac Suc_eq_plus1)
    ultimately have le: "?r * ?k * (i + 1) \<le> length (vals b)" by (simp only: n)
    moreover have "?r * ?k * (i + 1) - ?r * ?k * i = ?r * ?k" by (simp add: algebra_simps)
    ultimately show ?thesis unfolding slice_go_nat by (simp del: mult_Suc_right of_nat_mult of_nat_add)
  qed
  show ?thesis
    unfolding batch_def batch_stmt_def lh
    using cut s1 s2 ne up
    by (simp add: trim_last_eq add_upsert_clause appended_def del: mult_Suc_right of_nat_mult of_nat_add)
qed

lemma batch_last:
  assumes acc: "accumulated b" and big: "PLACEHOLDER_LIMIT \<le> length (vals b)"
    and i: "Suc i = batchs_of b"
    and up: "replaceOnDuplicate \<longrightarrow> columnsStr (initStr b) \<noteq> None"
  shows "batch b replaceOnDuplicate i =
     Some (butlast (initStr b @ concat (replicate (rows b - rowsPerBatch_of b * i) (placeholderStrHelper b)))
             @ appended '', '' b replaceOnDuplicate,
           drop (rowsPerBatch_of b * valuesPerRow b * i) (vals b))"
proof -
  let ?k = "valuesPerRow b" and ?h = "placeholderStrHelper b" and ?r = "rowsPerBatch_of b"
  from acc have k: "1 \<le> ?k" and n: "length (vals b) = rows b * ?k"
    and P: "placeholderStr b = concat (replicate (rows b) ?h)"
    and h: "?h = placeholder_group ?k" and ne: "initStr b \<noteq> []"
    by (simp_all add: accumulated_def)
  have lh: "2 * (?k + 1) = length ?h" using k h by (simp add: length_placeholder_group)
  have i': "i = batchs_of b - 1" using i by simp
  have rb: "?r * i < rows b" using rows_bound[OF acc big] i' by simp
  have cut: "int i = int (batchs_of b) - 1" using i by simp
  have s1: "slice_from (placeholderStr b) (int (?r * length ?h * i))
        = Some (concat (replicate (rows b - ?r * i) ?h))"
  proof -
    have "?r * i * length ?h \<le> rows b * length ?h" using rb by (intro mult_le_mono1) simp
    then have le: "?r * length ?h * i \<le> length (placeholderStr b)"
      by (simp add: P length_concat_replicate mult_ac)
    have "drop (?r * length ?h * i) (placeholderStr b) = concat (replicate (rows b - ?r * i) ?h)"
      using drop_concat_replicate[of "?r * i" ?h "rows b"] by (simp add: P mult_ac)
    then show ?thesis using le unfolding slice_from_nat by simp
  qed
  have s2: "slice_from (vals b) (int (?r * ?k * i)) = Some (drop (?r * ?k * i) (vals b))"
  proof -
    have "?r * i * ?k \<le> rows b * ?k" using rb by (intro mult_le_mono1) simp
    then have le: "?r * ?k * i \<le> length (vals b)" by (simp add: n mult_ac)
    then show ?thesis unfolding slice_from_nat by simp
  qed
  show ?thesis
    unfolding batch_def batch_stmt_def lh
    using cut s1 s2 ne up
    by (simp add: trim_last_eq add_upsert_clause appended_def del: mult_Suc_right of_nat_mult of_nat_add)
qed

section \<open>The loop over the batches\<close>

lemma Insert_batched:
  assumes "PLACEHOLDER_LIMIT \<le> length (vals b)" and "valuesPerRow b \<noteq> 0"
  shows "Insert ex d b up =
     (case Insert_loop ex b up (batchs_of b) (rowsPerBatch_of b)
             (rowsPerBatch_of b * (2 * (valuesPerRow b + 1))) 0 d [] of
        (out, d', calls) \<Rightarrow> (out, b, d', calls))"
  using assms by (simp add: Insert_def batchs_of_def rowsPerBatch_of_def Let_def split: prod.splits)

lemma ok_calls_Nil: "ok_calls [] = []"
  by (simp add: ok_calls_def)

lemma ok_calls_Cons: "ok_calls ((s, vs) # bs) = Prepare s None # Exec s vs None # ok_calls bs"
  by (simp add: ok_calls_def)

lemma ok_calls_append: "ok_calls (xs @ ys) = ok_calls xs @ ok_calls ys"
  by (simp add: ok_calls_def)


lemma prepared_ok_calls: "prepared (ok_calls bs) = map fst bs"
  by (induction bs) (auto simp: ok_calls_Nil ok_calls_Cons)

lemma executed_ok_calls: "executed (ok_calls bs) = map snd bs"
  by (induction bs) (auto simp: ok_calls_Nil ok_calls_Cons)

lemma run_stmt_succeeds:
  "succeeds ex \<Longrightarrow> \<exists>d'. run_stmt ex d s vs = (None, d', [Prepare s None, Exec s vs None])"
  by (auto simp: succeeds_def run_stmt_def split: prod.splits option.splits)
     (metis snd_conv option.distinct(1))+

lemma run_stmt_cases:
  "run_stmt ex d s vs = (r, d', calls) \<Longrightarrow>
     (r = None \<and> calls = [Prepare s None, Exec s vs None]) \<or>
     (\<exists>e. r = Some e \<and> (calls = [Prepare s (Some e)] \<or> calls = [Prepare s None, Exec s vs (Some e)]))"
  by (auto simp: run_stmt_def split: prod.splits option.splits)

lemma Insert_loop_ok:
  assumes ex: "succeeds ex"
    and all: "\<forall>j. i \<le> j \<and> j < B \<longrightarrow> batch_stmt b up B r c j \<noteq> None"
  shows "\<exists>d'. Insert_loop ex b up B r c i d tr =
     (ReturnNil, d', tr @ ok_calls (map (\<lambda>j. the (batch_stmt b up B r c j)) [i..<B]))"
  using all
proof (induction "B - i" arbitrary: i d tr)
  case 0
  then show ?case by (simp add: Insert_loop.simps ok_calls_Nil)
next
  case (Suc n)
  then have lt: "i < B" by simp
  with Suc.prems obtain s vs where bs: "batch_stmt b up B r c i = Some (s, vs)" by fastforce
  obtain d1 where run: "run_stmt ex d s vs = (None, d1, [Prepare s None, Exec s vs None])"
    using run_stmt_succeeds[OF ex] by blast
  have "n = B - Suc i" using Suc.hyps(2) by simp
  moreover have "\<forall>j. Suc i \<le> j \<and> j < B \<longrightarrow> batch_stmt b up B r c j \<noteq> None"
    using Suc.prems by simp
  ultimately obtain d' where
    "Insert_loop ex b up B r c (Suc i) d1 (tr @ [Prepare s None, Exec s vs None]) =
       (ReturnNil, d', (tr @ [Prepare s None, Exec s vs None])
          @ ok_calls (map (\<lambda>j. the (batch_stmt b up B r c j)) [Suc i..<B]))"
    using Suc.hyps(1)[of "Suc i"] by blast
  then show ?case
    using lt bs run
    by (subst Insert_loop.simps) (simp add: upt_conv_Cons ok_calls_Cons)
qed

lemma Insert_loop_char:
  assumes "Insert_loop ex b up B r c i d tr = (out, d', tr')"
  shows "\<exists>m rest. i \<le> m \<and> (\<forall>j. i \<le> j \<and> j < m \<longrightarrow> batch_stmt b up B r c j \<noteq> None) \<and>
     tr' = tr @ ok_calls (map (\<lambda>j. the (batch_stmt b up B r c j)) [i..<m]) @ rest \<and>
     ((out = ReturnNil \<and> B \<le> m \<and> rest = []) \<or>
      (out = GoPanic \<and> m < B \<and> batch_stmt b up B r c m = None \<and> rest = []) \<or>
      (\<exists>e s vs. out = ReturnErr e \<and> m < B \<and> batch_stmt b up B r c m = Some (s, vs) \<and>
         (rest = [Prepare s (Some e)] \<or> rest = [Prepare s None, Exec s vs (Some e)])))"
  using assms
proof (induction "B - i" arbitrary: i d tr)
  case 0
  then have "out = ReturnNil" "tr' = tr" "B \<le> i" by (simp_all add: Insert_loop.simps)
  then show ?case by (intro exI[of _ i] exI[of _ "[]"]) (auto simp: ok_calls_Nil)
next
  case (Suc n)
  then have lt: "i < B" by simp
  show ?case
  proof (cases "batch_stmt b up B r c i")
    case None
    with lt Suc.prems have "out = GoPanic" "tr' = tr"
      by (simp_all add: Insert_loop.simps)
    with None lt show ?thesis by (intro exI[of _ i] exI[of _ "[]"]) (auto simp: ok_calls_Nil)
  next
    case (Some sv)
    obtain s vs where sv: "sv = (s, vs)" by (cases sv)
    obtain rr d1 calls where run: "run_stmt ex d s vs = (rr, d1, calls)" by (cases "run_stmt ex d s vs")
    show ?thesis
    proof (cases rr)
      case (Some e)
      with lt \<open>batch_stmt b up B r c i = Some sv\<close> sv run Suc.prems
      have o: "out = ReturnErr e" "tr' = tr @ calls" by (simp_all add: Insert_loop.simps)
      from run_stmt_cases[OF run] Some
      have "calls = [Prepare s (Some e)] \<or> calls = [Prepare s None, Exec s vs (Some e)]" by auto
      with o lt \<open>batch_stmt b up B r c i = Some sv\<close> sv show ?thesis
        by (intro exI[of _ i] exI[of _ calls]) (auto simp: ok_calls_Nil)
    next
      case None
      with run_stmt_cases[OF run] have calls: "calls = [Prepare s None, Exec s vs None]" by auto
      from None lt \<open>batch_stmt b up B r c i = Some sv\<close> sv run Suc.prems
      have rec: "Insert_loop ex b up B r c (Suc i) d1 (tr @ calls) = (out, d', tr')"
        by (simp add: Insert_loop.simps)
      have "n = B - Suc i" using Suc.hyps(2) by simp
      from Suc.hyps(1)[OF this rec] obtain m rest where
        m: "Suc i \<le> m" "\<forall>j. Suc i \<le> j \<and> j < m \<longrightarrow> batch_stmt b up B r c j \<noteq> None"
        "tr' = (tr @ calls) @ ok_calls (map (\<lambda>j. the (batch_stmt b up B r c j)) [Suc i..<m]) @ rest"
        "(out = ReturnNil \<and> B \<le> m \<and> rest = []) \<or>
         (out = GoPanic \<and> m < B \<and> batch_stmt b up B r c m = None \<and> rest = []) \<or>
         (\<exists>e s vs. out = ReturnErr e \<and> m < B \<and> batch_stmt b up B r c m = Some (s, vs) \<and>
           (rest = [Prepare s (Some e)] \<or> rest = [Prepare s None, Exec s vs (Some e)]))"
        by blast
      have all: "\<forall>j. i \<le> j \<and> j < m \<longrightarrow> batch_stmt b up B r c j \<noteq> None"
        using m(2) \<open>batch_stmt b up B r c i = Some sv\<close> by (metis le_antisym not_less_eq_eq option.distinct(1))
      have im: "i < m" using m(1) by simp
      have tr: "tr' = tr @ ok_calls (map (\<lambda>j. the (batch_stmt b up B r c j)) [i..<m]) @ rest"
        using m(3) im calls \<open>batch_stmt b up B r c i = Some sv\<close> sv
        by (simp add: upt_conv_Cons ok_calls_Cons)
      show ?thesis
        using im all tr m(4) by (intro exI[of _ m] exI[of _ rest]) simp
    qed
  qed
qed

section \<open>Accumulation and the single statement\<close>

lemma PrepareValues_snd:
  "snd (PrepareValues b r) =
     (if length r = valuesPerRow b
      then b\<lparr>placeholderStr := placeholderStr b @ placeholderStrHelper b,
             vals := vals b @ r, rows := rows b + 1\<rparr>
      else b)"
  by (simp add: PrepareValues_def)

lemma accepted_Cons:
  "accepted b (r # rs) =
     (if length r = valuesPerRow b then Suc (accepted (snd (PrepareValues b r)) rs)
      else accepted b rs)"
  by (simp add: PrepareValues_def)

lemma accepted_Nil: "accepted b [] = 0"
  by simp

lemma PrepareValues_all_fixed:
  "valuesPerRow (PrepareValues_all b rs) = valuesPerRow b \<and>
   placeholderStrHelper (PrepareValues_all b rs) = placeholderStrHelper b \<and>
   initStr (PrepareValues_all b rs) = initStr b"
  by (induction rs arbitrary: b) (simp_all add: PrepareValues_snd)

lemma accepted_filter:
  "accepted b rs = length (filter (\<lambda>r. length r = valuesPerRow b) rs)"
  by (induction rs arbitrary: b) (simp_all add: accepted_Cons PrepareValues_snd del: accepted.simps(2))

lemma PrepareValues_all_rows:
  "rows (PrepareValues_all b rs) = rows b + accepted b rs"
  by (induction rs arbitrary: b) (simp_all add: accepted_Cons PrepareValues_snd del: accepted.simps(2))

lemma PrepareValues_all_vals:
  "vals (PrepareValues_all b rs) = vals b @ concat (filter (\<lambda>r. length r = valuesPerRow b) rs)"
  by (induction rs arbitrary: b) (simp_all add: PrepareValues_snd)

lemma length_concat_same:
  "length (concat (filter (\<lambda>r. length r = k) rs)) = length (filter (\<lambda>r. length r = k) rs) * k"
  by (induction rs) simp_all

lemma PrepareValues_all_placeholderStr:
  "placeholderStr (PrepareValues_all b rs) =
     placeholderStr b @ concat (replicate (accepted b rs) (placeholderStrHelper b))"
  by (induction rs arbitrary: b) (simp_all add: accepted_Cons PrepareValues_snd del: accepted.simps(2))

text \<open>Claim C4. For every builder and every row: when the length of the row differs from
  \<^verbatim>\<open>valuesPerRow\<close>, \<^verbatim>\<open>PrepareValues\<close> returns the error that carries the supplied and the
  required count and leaves the builder as it was; when the length is \<^verbatim>\<open>valuesPerRow\<close>, it
  returns no error, appends the values of the row in order, appends one placeholder group
  and adds one to \<^verbatim>\<open>rows\<close>, and changes nothing else.\<close>

theorem PrepareValues_arity:
  "(length vs \<noteq> valuesPerRow b \<longrightarrow>
      PrepareValues b vs = (Some (WrongAmount (length vs) (valuesPerRow b)), b)) \<and>
   (length vs = valuesPerRow b \<longrightarrow>
      fst (PrepareValues b vs) = None \<and>
      vals (snd (PrepareValues b vs)) = vals b @ vs \<and>
      placeholderStr (snd (PrepareValues b vs)) = placeholderStr b @ placeholderStrHelper b \<and>
      rows (snd (PrepareValues b vs)) = rows b + 1 \<and>
      initStr (snd (PrepareValues b vs)) = initStr b \<and>
      valuesPerRow (snd (PrepareValues b vs)) = valuesPerRow b \<and>
      placeholderStrHelper (snd (PrepareValues b vs)) = placeholderStrHelper b)"
  by (simp add: PrepareValues_def)

text \<open>Claim C5. On a new builder initialized for the columns \<open>s\<close>, after any sequence of
  accumulations, accepted or rejected, of which \<open>N\<close> were accepted (those of the rows with as
  many values as there are columns): \<^verbatim>\<open>rows\<close> is \<open>N\<close>, there are \<open>N * length s\<close> values and the
  placeholder buffer is \<open>N\<close> copies of the placeholder group.\<close>

theorem accumulation_invariant:
  assumes "Init Bulk_zero t s = Some b0"
  shows "rows (PrepareValues_all b0 rs) = accepted b0 rs \<and>
     length (vals (PrepareValues_all b0 rs)) = accepted b0 rs * length s \<and>
     placeholderStr (PrepareValues_all b0 rs) =
       concat (replicate (accepted b0 rs) (placeholder_group (length s))) \<and>
     valuesPerRow (PrepareValues_all b0 rs) = length s \<and>
     accepted b0 rs = length (filter (\<lambda>r. length r = length s) rs)"
proof -
  from assms have ne: "s \<noteq> []" by (cases "s = []") (simp_all add: Init_none)
  from assms have b0: "b0 = Bulk_zero\<lparr>initStr := ''INSERT INTO '' @ t @ ''('' @ Join_go s '', '' @ '') VALUES '',
      vals := [], valuesPerRow := length s, rows := 0, placeholderStrHelper := placeholder_group (length s)\<rparr>"
    by (simp add: Init_zero[OF ne])
  have f: "valuesPerRow b0 = length s" "placeholderStrHelper b0 = placeholder_group (length s)"
    "rows b0 = 0" "vals b0 = []" "placeholderStr b0 = []"
    by (simp_all add: b0 Bulk_zero_def)
  show ?thesis
    by (simp add: PrepareValues_all_fixed PrepareValues_all_rows PrepareValues_all_vals
        PrepareValues_all_placeholderStr length_concat_same f accepted_filter)
qed

lemma Insert_empty:
  assumes "accumulated b" and "rows b = 0"
  shows "Insert ex d b up = (GoPanic, b, d, [])"
proof -
  from assms have "placeholderStr b = []" "length (vals b) = 0" by (simp_all add: accumulated_def)
  then show ?thesis using PLACEHOLDER_LIMIT_pos by (simp add: Insert_def trim_last_eq)
qed

lemma placeholder_group_nonempty: "placeholder_group n \<noteq> []"
  by (simp add: placeholder_group_def)

lemma placeholderStr_nonempty:
  assumes "accumulated b" and "1 \<le> rows b"
  shows "placeholderStr b \<noteq> []"
proof -
  from assms obtain n where "rows b = Suc n" by (cases "rows b") simp_all
  with assms(1) show ?thesis by (simp add: accumulated_def placeholder_group_nonempty)
qed

lemma batch_Some:
  assumes acc: "accumulated b" and big: "PLACEHOLDER_LIMIT \<le> length (vals b)"
    and i: "i < batchs_of b"
    and up: "up \<longrightarrow> columnsStr (initStr b) \<noteq> None"
  shows "batch b up i \<noteq> None"
proof (cases "Suc i < batchs_of b")
  case True
  from batch_nonlast[OF acc big True up] show ?thesis by simp
next
  case False
  with i have "Suc i = batchs_of b" by simp
  from batch_last[OF acc big this up] show ?thesis by simp
qed

lemma Insert_single:
  assumes ne: "placeholderStr b \<noteq> []" and small: "length (vals b) < PLACEHOLDER_LIMIT"
    and up: "up \<longrightarrow> columnsStr (initStr b) \<noteq> None"
  shows "\<exists>r d' calls. run_stmt ex d (initStr b @ butlast (placeholderStr b) @ appended '','' b up) (vals b) = (r, d', calls) \<and>
     Insert ex d b up = ((case r of None \<Rightarrow> ReturnNil | Some e \<Rightarrow> ReturnErr e), b\<lparr>placeholderStr := butlast (placeholderStr b)\<rparr>, d', calls)"
proof -
  let ?str = "initStr b @ butlast (placeholderStr b) @ appended '','' b up"
  have st: "single_stmt (b\<lparr>placeholderStr := butlast (placeholderStr b)\<rparr>) up = Some ?str"
    using up by (simp add: single_stmt_def appended_def add_upsert_clause)
  obtain r d' calls where run: "run_stmt ex d ?str (vals b) = (r, d', calls)"
    by (cases "run_stmt ex d ?str (vals b)")
  show ?thesis
    using ne small st run by (cases r) (simp_all add: Insert_def trim_last_eq)
qed

section \<open>Multi-batch inserts\<close>

lemma concat_pieces:
  "concat (map (\<lambda>j. take c (drop (c * j) xs)) [0..<m]) = take (c * m) xs"
proof (induction m)
  case 0
  show ?case by simp
next
  case (Suc m)
  have "take (c * m) xs @ take c (drop (c * m) xs) = take (c * m + c) xs"
    by (simp add: take_add)
  with Suc show ?case by (simp add: add.commute)
qed

lemma Insert_loop_plan:
  assumes acc: "accumulated b" and big: "PLACEHOLDER_LIMIT \<le> length (vals b)"
    and ex: "succeeds ex"
    and up: "up \<longrightarrow> columnsStr (initStr b) \<noteq> None"
  shows "\<exists>d'. Insert ex d b up =
     (ReturnNil, b, d', ok_calls (map (\<lambda>j. the (batch b up j)) [0..<batchs_of b]))"
proof -
  let ?c = "rowsPerBatch_of b * (2 * (valuesPerRow b + 1))"
  from acc have k: "valuesPerRow b \<noteq> 0" by (simp add: accumulated_def)
  have "\<forall>j. 0 \<le> j \<and> j < batchs_of b \<longrightarrow>
      batch_stmt b up (batchs_of b) (rowsPerBatch_of b) ?c j \<noteq> None"
    using batch_Some[OF acc big _ up] by (simp add: batch_def)
  from Insert_loop_ok[OF ex this, of d "[]"] obtain d' where
    "Insert_loop ex b up (batchs_of b) (rowsPerBatch_of b) ?c 0 d [] =
       (ReturnNil, d', ok_calls (map (\<lambda>j. the (batch b up j)) [0..<batchs_of b]))"
    by (auto simp: batch_def)
  then show ?thesis by (simp add: Insert_batched[OF big k])
qed

lemma plan_values:
  assumes acc: "accumulated b" and big: "PLACEHOLDER_LIMIT \<le> length (vals b)"
    and up: "up \<longrightarrow> columnsStr (initStr b) \<noteq> None"
  shows "concat (map (\<lambda>j. snd (the (batch b up j))) [0..<batchs_of b]) = vals b"
proof -
  let ?c = "rowsPerBatch_of b * valuesPerRow b"
  have "0 < length (vals b)" using big PLACEHOLDER_LIMIT_pos by linarith
  then have "0 < batchs_of b" by (rule conjunct1[OF batchs_of_lower])
  then obtain m where B: "batchs_of b = Suc m" by (cases "batchs_of b") simp_all
  have nl: "snd (the (batch b up j)) = take ?c (drop (?c * j) (vals b))" if "j < m" for j
  proof -
    from that B have "Suc j < batchs_of b" by simp
    from batch_nonlast[OF acc big this up] show ?thesis by (simp only: option.sel snd_conv)
  qed
  have 1: "map (\<lambda>j. snd (the (batch b up j))) [0..<m] = map (\<lambda>j. take ?c (drop (?c * j) (vals b))) [0..<m]"
    by (rule map_cong[OF refl]) (simp add: nl)
  have 2: "snd (the (batch b up m)) = drop (?c * m) (vals b)"
    using batch_last[OF acc big B[symmetric] up] by (simp only: option.sel snd_conv)
  have "concat (map (\<lambda>j. snd (the (batch b up j))) [0..<Suc m]) =
      concat (map (\<lambda>j. snd (the (batch b up j))) [0..<m]) @ snd (the (batch b up m))"
    by simp
  also have "\<dots> = take (?c * m) (vals b) @ drop (?c * m) (vals b)"
    by (simp only: 1 2 concat_pieces)
  also have "\<dots> = vals b" by (rule append_take_drop_id)
  finally show ?thesis by (simp only: B)
qed

text \<open>Claim C1. For an accumulated builder with at least \<^verbatim>\<open>PLACEHOLDER_LIMIT\<close> values, a
  database that accepts every statement and, when the upsert is requested, a prefix whose
  column text can be cut out: \<^verbatim>\<open>Insert\<close> returns nil, the number of statements it prepared,
  which is the number of value lists it executed, is the ceiling of the number of values
  divided by \<^verbatim>\<open>PLACEHOLDER_LIMIT\<close>, the executed value lists concatenated in the order of
  the batches are the accumulated values, every batch but the last has the values of
  \<open>PLACEHOLDER_LIMIT div valuesPerRow\<close> rows, from where the batch before it ended, and the
  last batch has all the values that remain.\<close>

theorem Insert_batches:
  fixes ex :: "('d, 'v, 'e) executor" and b :: "'v Bulk"
  assumes acc: "accumulated b" and big: "PLACEHOLDER_LIMIT \<le> length (vals b)"
    and ex: "succeeds ex"
    and up: "up \<longrightarrow> columnsStr (initStr b) \<noteq> None"
  shows "\<exists>d' tr. Insert ex d b up = (ReturnNil, b, d', tr) \<and>
     int (length (prepared tr)) = \<lceil>real (length (vals b)) / real PLACEHOLDER_LIMIT\<rceil> \<and>
     length (executed tr) = length (prepared tr) \<and>
     concat (executed tr) = vals b \<and>
     (\<forall>i. Suc i < length (executed tr) \<longrightarrow>
        executed tr ! i =
          take (PLACEHOLDER_LIMIT div valuesPerRow b * valuesPerRow b)
            (drop (PLACEHOLDER_LIMIT div valuesPerRow b * valuesPerRow b * i) (vals b))) \<and>
     last (executed tr) =
       drop (PLACEHOLDER_LIMIT div valuesPerRow b * valuesPerRow b * (length (executed tr) - 1)) (vals b)"
proof -
  let ?plan = "map (\<lambda>j. the (batch b up j)) [0..<batchs_of b]"
  let ?tr = "ok_calls ?plan :: ('v, 'e) call list"
  let ?c = "PLACEHOLDER_LIMIT div valuesPerRow b * valuesPerRow b"
  from Insert_loop_plan[OF acc big ex up] obtain d' where
    ins: "Insert ex d b up = (ReturnNil, b, d', ?tr)" by blast
  have "0 < length (vals b)" using big PLACEHOLDER_LIMIT_pos by linarith
  then have Bpos: "0 < batchs_of b" by (rule conjunct1[OF batchs_of_lower])
  have "0 \<le> \<lceil>real (length (vals b)) / real PLACEHOLDER_LIMIT\<rceil>"
    by (metis ceiling_mono ceiling_zero divide_nonneg_nonneg of_nat_0_le_iff)
  then have n: "int (batchs_of b) = \<lceil>real (length (vals b)) / real PLACEHOLDER_LIMIT\<rceil>"
    by (simp add: batchs_of_def RoundUp_def)
  have e: "executed ?tr = map (\<lambda>j. snd (the (batch b up j))) [0..<batchs_of b]"
    by (simp add: executed_ok_calls o_def)
  have le: "length (executed ?tr) = batchs_of b" by (simp add: e)
  have p: "length (prepared ?tr) = batchs_of b" by (simp add: prepared_ok_calls)
  have 1: "int (length (prepared ?tr)) = \<lceil>real (length (vals b)) / real PLACEHOLDER_LIMIT\<rceil>"
    using n by (simp only: p)
  have 2: "length (executed ?tr) = length (prepared ?tr)" by (simp only: le p)
  have 3: "concat (executed ?tr) = vals b"
    using plan_values[OF acc big up] by (simp only: e)
  have 4: "\<forall>i. Suc i < length (executed ?tr) \<longrightarrow>
        executed ?tr ! i = take ?c (drop (?c * i) (vals b))"
  proof (intro allI impI)
    fix i assume "Suc i < length (executed ?tr)"
    then have i: "Suc i < batchs_of b" by (simp only: le)
    then have "executed ?tr ! i = snd (the (batch b up i))" by (simp add: e)
    also have "\<dots> = take ?c (drop (?c * i) (vals b))"
      using batch_nonlast[OF acc big i up] by (simp add: rowsPerBatch_of_def)
    finally show "executed ?tr ! i = take ?c (drop (?c * i) (vals b))" .
  qed
  have 5: "last (executed ?tr) = drop (?c * (length (executed ?tr) - 1)) (vals b)"
  proof -
    have S: "Suc (batchs_of b - 1) = batchs_of b" using Bpos by simp
    have "executed ?tr \<noteq> []" using Bpos le by (metis length_0_conv less_numeral_extra(3))
    then have "last (executed ?tr) = executed ?tr ! (batchs_of b - 1)"
      by (simp add: last_conv_nth le)
    also have "\<dots> = snd (the (batch b up (batchs_of b - 1)))" using Bpos by (simp add: e)
    also have "\<dots> = drop (?c * (batchs_of b - 1)) (vals b)"
      using batch_last[OF acc big S up] by (simp add: rowsPerBatch_of_def)
    finally show ?thesis by (simp only: le)
  qed
  show ?thesis
    apply (intro exI[of _ d'] exI[of _ ?tr] conjI)
    by (rule ins 1 2 3 4 5)+
qed

section \<open>Panics, the single batch and the first error\<close>

lemma Insert_no_panic:
  fixes ex :: "('d, 'v, 'e) executor" and b :: "'v Bulk"
  assumes acc: "accumulated b" and r: "1 \<le> rows b"
    and up: "up \<longrightarrow> columnsStr (initStr b) \<noteq> None"
  shows "fst (Insert ex d b up) \<noteq> GoPanic"
proof (cases "length (vals b) < PLACEHOLDER_LIMIT")
  case True
  from Insert_single[OF placeholderStr_nonempty[OF acc r] True up, of ex d]
  show ?thesis by (auto split: option.splits)
next
  case False
  then have big: "PLACEHOLDER_LIMIT \<le> length (vals b)" by simp
  let ?c = "rowsPerBatch_of b * (2 * (valuesPerRow b + 1))"
  from acc have k: "valuesPerRow b \<noteq> 0" by (simp add: accumulated_def)
  obtain out d' tr where loop:
    "Insert_loop ex b up (batchs_of b) (rowsPerBatch_of b) ?c 0 d [] = (out, d', tr)"
    by (cases "Insert_loop ex b up (batchs_of b) (rowsPerBatch_of b) ?c 0 d []")
  from Insert_loop_char[OF loop] obtain m where
    c: "(out = ReturnNil) \<or> (out = GoPanic \<and> m < batchs_of b \<and> batch b up m = None) \<or> (\<exists>e. out = ReturnErr e)"
    unfolding batch_def by blast
  have "out \<noteq> GoPanic"
  proof
    assume "out = GoPanic"
    with c have m: "m < batchs_of b" and n: "batch b up m = None" by simp_all
    from batch_Some[OF acc big m up] n show False by simp
  qed
  then show ?thesis using loop by (simp add: Insert_batched[OF big k])
qed

text \<open>Claim C10. For an accumulated builder: with at least one row the trim of the placeholder
  buffer is in range, and \<^verbatim>\<open>Insert\<close> does not panic on either path (when the upsert is
  requested, provided the column text can be cut out of the prefix); with no row the buffer
  is empty, the trim is out of range, and \<^verbatim>\<open>Insert\<close> panics before any call of the database,
  for want of a guard.\<close>

theorem trim_needs_a_row:
  fixes ex :: "('d, 'v, 'e) executor" and b :: "'v Bulk"
  assumes acc: "accumulated b"
  shows "(1 \<le> rows b \<longrightarrow>
            trim_last (placeholderStr b) = Some (butlast (placeholderStr b)) \<and>
            ((up \<longrightarrow> columnsStr (initStr b) \<noteq> None) \<longrightarrow> fst (Insert ex d b up) \<noteq> GoPanic)) \<and>
         (rows b = 0 \<longrightarrow>
            trim_last (placeholderStr b) = None \<and> Insert ex d b up = (GoPanic, b, d, []))"
proof (intro conjI impI)
  assume r: "1 \<le> rows b"
  from placeholderStr_nonempty[OF acc r]
  show "trim_last (placeholderStr b) = Some (butlast (placeholderStr b))"
    by (simp add: trim_last_eq)
  assume "up \<longrightarrow> columnsStr (initStr b) \<noteq> None"
  from Insert_no_panic[OF acc r this] show "fst (Insert ex d b up) \<noteq> GoPanic" .
next
  assume z: "rows b = 0"
  with acc show "trim_last (placeholderStr b) = None" by (simp add: accumulated_def trim_last_eq)
  from Insert_empty[OF acc z] show "Insert ex d b up = (GoPanic, b, d, [])" .
qed

text \<open>Claim C3, amended by the condition that a row has been accumulated. For an accumulated
  builder with at least one row and fewer than \<^verbatim>\<open>PLACEHOLDER_LIMIT\<close> values (and, when the
  upsert is requested, a prefix whose column text can be cut out), \<^verbatim>\<open>Insert\<close> prepares exactly
  one statement: the prefix, all the accumulated placeholder groups less the trailing
  separator, and what the upsert appends. Unless the preparation fails, it executes that
  statement once with the whole list of accumulated values.\<close>

theorem Insert_one_batch:
  fixes ex :: "('d, 'v, 'e) executor" and b :: "'v Bulk"
  assumes acc: "accumulated b" and r: "1 \<le> rows b"
    and small: "length (vals b) < PLACEHOLDER_LIMIT"
    and up: "up \<longrightarrow> columnsStr (initStr b) \<noteq> None"
    and ins: "Insert ex d b up = (out, b', d', tr)"
    and stmt: "stmt = initStr b @ butlast (concat (replicate (rows b) (placeholderStrHelper b)))
                 @ appended '','' b up"
  shows "prepared tr = [stmt] \<and>
     ((\<exists>e. out = ReturnErr e \<and> tr = [Prepare stmt (Some e)]) \<or>
      (out = ReturnNil \<and> tr = [Prepare stmt None, Exec stmt (vals b) None]) \<or>
      (\<exists>e. out = ReturnErr e \<and> tr = [Prepare stmt None, Exec stmt (vals b) (Some e)]))"
proof -
  from acc have P: "placeholderStr b = concat (replicate (rows b) (placeholderStrHelper b))"
    by (simp add: accumulated_def)
  from Insert_single[OF placeholderStr_nonempty[OF acc r] small up, of ex d]
  obtain rr d1 calls where run: "run_stmt ex d stmt (vals b) = (rr, d1, calls)"
    and res: "Insert ex d b up = ((case rr of None \<Rightarrow> ReturnNil | Some e \<Rightarrow> ReturnErr e),
        b\<lparr>placeholderStr := butlast (placeholderStr b)\<rparr>, d1, calls)"
    unfolding stmt P by blast
  from res ins have o: "out = (case rr of None \<Rightarrow> ReturnNil | Some e \<Rightarrow> ReturnErr e)" and t: "tr = calls"
    by simp_all
  from run_stmt_cases[OF run] show ?thesis
    unfolding o t by (auto)
qed



section \<open>The example builders\<close>

lemma filled_Some:
  assumes "columns \<noteq> []"
  shows "filled t columns n row =
     PrepareValues_all (Bulk_zero\<lparr>initStr := ''INSERT INTO '' @ t @ ''('' @ Join_go columns '', '' @ '') VALUES '',
        vals := [], valuesPerRow := length columns, rows := 0,
        placeholderStrHelper := placeholder_group (length columns)\<rparr>) (replicate n row)"
  by (simp add: filled_def Init_zero[OF assms])

lemma filled_fields:
  assumes c: "columns \<noteq> []" and r: "length row = length columns"
  shows "initStr (filled t columns n row) = ''INSERT INTO '' @ t @ ''('' @ Join_go columns '', '' @ '') VALUES ''"
    and "placeholderStr (filled t columns n row) = concat (replicate n (placeholder_group (length columns)))"
    and "vals (filled t columns n row) = concat (replicate n row)"
    and "rows (filled t columns n row) = n"
    and "valuesPerRow (filled t columns n row) = length columns"
    and "placeholderStrHelper (filled t columns n row) = placeholder_group (length columns)"
  using r
  by (simp_all add: filled_Some[OF c] PrepareValues_all_fixed PrepareValues_all_rows
      PrepareValues_all_vals PrepareValues_all_placeholderStr accepted_filter Bulk_zero_def)

lemma accumulated_filled:
  assumes c: "columns \<noteq> []" and r: "length row = length columns"
  shows "accumulated (filled t columns n row)"
proof -
  from c have "1 \<le> length columns" by (cases columns) simp_all
  then show ?thesis
    by (simp add: accumulated_def filled_fields[OF c r] length_concat_replicate r)
qed

lemma length_vals_filled:
  assumes c: "columns \<noteq> []" and r: "length row = length columns"
  shows "length (vals (filled t columns n row)) = n * length columns"
  by (simp add: filled_fields[OF c r] length_concat_replicate r)

lemma succeeds_accepting: "succeeds accepting"
  by (simp add: succeeds_def accepting_def)

text \<open>Claim C4, at a builder for two columns: a row of one value is rejected with the counts 1
  and 2, a row of two values is accepted.\<close>

theorem PrepareValues_arity_witness:
  "PrepareValues (filled ''t'' [''a'', ''b''] 0 []) [7 :: nat] =
     (Some (WrongAmount 1 2), filled ''t'' [''a'', ''b''] 0 []) \<and>
   fst (PrepareValues (filled ''t'' [''a'', ''b''] 0 []) [7 :: nat, 8]) = None \<and>
   vals (snd (PrepareValues (filled ''t'' [''a'', ''b''] 0 []) [7 :: nat, 8])) = [7, 8] \<and>
   placeholderStr (snd (PrepareValues (filled ''t'' [''a'', ''b''] 0 []) [7 :: nat, 8])) = ''(?,?),'' \<and>
   rows (snd (PrepareValues (filled ''t'' [''a'', ''b''] 0 []) [7 :: nat, 8])) = 1"
  using PrepareValues_arity[of "[7 :: nat]" "filled ''t'' [''a'', ''b''] 0 []"]
    PrepareValues_arity[of "[7 :: nat, 8]" "filled ''t'' [''a'', ''b''] 0 []"]
  by (simp add: filled_def Init_def Repeat_go_def Bulk_zero_def)

text \<open>Claim C5, for two columns and three accumulations, the second of which is rejected.\<close>

theorem accumulation_invariant_witness:
  "(Init Bulk_zero ''t'' [''a'', ''b''] :: nat Bulk option) \<noteq> None \<and>
   rows (PrepareValues_all (the (Init Bulk_zero ''t'' [''a'', ''b''])) [[1, 2], [3], [4, 5 :: nat]]) = 2 \<and>
   length (vals (PrepareValues_all (the (Init Bulk_zero ''t'' [''a'', ''b''])) [[1, 2], [3], [4, 5 :: nat]])) = 4 \<and>
   placeholderStr (PrepareValues_all (the (Init Bulk_zero ''t'' [''a'', ''b''])) [[1, 2], [3], [4, 5 :: nat]])
     = ''(?,?),(?,?),''"
proof -
  have i: "Init Bulk_zero ''t'' [''a'', ''b''] = Some (the (Init Bulk_zero ''t'' [''a'', ''b'']) :: nat Bulk)"
    by (simp add: Init_def Repeat_go_def)
  have a: "accepted (the (Init Bulk_zero ''t'' [''a'', ''b'']) :: nat Bulk) [[1, 2], [3], [4, 5]] = 2"
    by (simp add: Init_def Repeat_go_def PrepareValues_def)
  have n: "Init Bulk_zero ''t'' [''a'', ''b''] \<noteq> (None :: nat Bulk option)"
    by (simp add: Init_def Repeat_go_def)
  show ?thesis
    using accumulation_invariant[OF i, of "[[1, 2], [3], [4, 5]]", unfolded a] n
    by (simp add: placeholder_group_def numeral_2_eq_2 del: PrepareValues_all.simps)
qed

section \<open>Examples of inserts\<close>



lemma run_stmt_accepting:
  "run_stmt accepting d s vs = (None, d, [Prepare s None, Exec s vs None])"
  by (simp add: run_stmt_def accepting_def)


text \<open>Claim C1, for two columns and 60000 rows, with the upsert: two batches of 60000 values
  each.\<close>

theorem Insert_batches_witness:
  "accumulated (filled ''t'' [''x'', ''y''] 60000 [7 :: nat, 8]) \<and>
   PLACEHOLDER_LIMIT \<le> length (vals (filled ''t'' [''x'', ''y''] 60000 [7 :: nat, 8])) \<and>
   succeeds (accepting :: (unit, nat, string) executor) \<and>
   columnsStr (initStr (filled ''t'' [''x'', ''y''] 60000 [7 :: nat, 8])) \<noteq> None \<and>
   (\<exists>tr. Insert accepting () (filled ''t'' [''x'', ''y''] 60000 [7 :: nat, 8]) True =
            (ReturnNil, filled ''t'' [''x'', ''y''] 60000 [7 :: nat, 8], (), tr) \<and>
      length (prepared tr) = 2 \<and> length (executed tr) = 2 \<and>
      concat (executed tr) = vals (filled ''t'' [''x'', ''y''] 60000 [7 :: nat, 8]) \<and>
      executed tr ! 0 = take 60000 (vals (filled ''t'' [''x'', ''y''] 60000 [7 :: nat, 8])) \<and>
      last (executed tr) = drop 60000 (vals (filled ''t'' [''x'', ''y''] 60000 [7 :: nat, 8])))"
proof -
  let ?b = "filled ''t'' [''x'', ''y''] 60000 [7 :: nat, 8]"
  have h1: "accumulated ?b" by (rule accumulated_filled) simp_all
  have len: "length (vals ?b) = 120000" by (simp add: length_vals_filled)
  have h2: "PLACEHOLDER_LIMIT \<le> length (vals ?b)" by (simp add: len PLACEHOLDER_LIMIT_def)
  have h3: "succeeds (accepting :: (unit, nat, string) executor)" by (rule succeeds_accepting)
  have cs: "columnsStr (initStr ?b) \<noteq> None"
    by (simp add: filled_fields columnsStr_def slice_go_def HasPrefix_def)
  then have h4: "True \<longrightarrow> columnsStr (initStr ?b) \<noteq> None" by simp
  have k: "valuesPerRow ?b = 2" by (simp add: filled_fields)
  from Insert_batches[OF h1 h2 h3 h4, of "()"] obtain d' tr where
    ins: "Insert accepting () ?b True = (ReturnNil, ?b, d', tr)"
    and n: "int (length (prepared tr)) = \<lceil>real (length (vals ?b)) / real PLACEHOLDER_LIMIT\<rceil>"
    and l: "length (executed tr) = length (prepared tr)"
    and c: "concat (executed tr) = vals ?b"
    and nl: "\<forall>i. Suc i < length (executed tr) \<longrightarrow>
        executed tr ! i =
          take (PLACEHOLDER_LIMIT div valuesPerRow ?b * valuesPerRow ?b)
            (drop (PLACEHOLDER_LIMIT div valuesPerRow ?b * valuesPerRow ?b * i) (vals ?b))"
    and la: "last (executed tr) =
       drop (PLACEHOLDER_LIMIT div valuesPerRow ?b * valuesPerRow ?b * (length (executed tr) - 1)) (vals ?b)"
    by (elim exE conjE)
  have p2: "length (prepared tr) = 2" using n by (simp add: len PLACEHOLDER_LIMIT_def)
  have e2: "length (executed tr) = 2" using l p2 by simp
  have f: "executed tr ! 0 = take 60000 (vals ?b)"
    using nl[rule_format, of 0] by (simp add: e2 k PLACEHOLDER_LIMIT_def)
  have g: "last (executed tr) = drop 60000 (vals ?b)"
    using la by (simp add: e2 k PLACEHOLDER_LIMIT_def)
  show ?thesis
    using h1 h2 h3 cs ins p2 e2 c f g by simp
qed

text \<open>Claim C3 as amended, for the column \<^verbatim>\<open>id\<close> and the single row \<open>[7]\<close>.\<close>

theorem Insert_one_batch_witness:
  "accumulated (filled ''t'' [''id''] 1 [7 :: nat]) \<and>
   1 \<le> rows (filled ''t'' [''id''] 1 [7 :: nat]) \<and>
   length (vals (filled ''t'' [''id''] 1 [7 :: nat])) < PLACEHOLDER_LIMIT \<and>
   prepared (snd (snd (snd (Insert accepting () (filled ''t'' [''id''] 1 [7 :: nat]) False))))
     = [''INSERT INTO t(id) VALUES (?)''] \<and>
   executed (snd (snd (snd (Insert accepting () (filled ''t'' [''id''] 1 [7 :: nat]) False))))
     = [[7]]"
proof -
  let ?b = "filled ''t'' [''id''] 1 [7 :: nat]"
  let ?I = "Insert accepting () ?b False"
  have h1: "accumulated ?b" by (rule accumulated_filled) simp_all
  have h2: "1 \<le> rows ?b" by (simp add: filled_fields)
  have h3: "length (vals ?b) < PLACEHOLDER_LIMIT"
    by (simp add: length_vals_filled PLACEHOLDER_LIMIT_def)
  have h4: "False \<longrightarrow> columnsStr (initStr ?b) \<noteq> None" by simp
  have h5: "?I = (fst ?I, fst (snd ?I), fst (snd (snd ?I)), snd (snd (snd ?I)))"
    by (simp only: prod.collapse)
  have st: "initStr ?b @ butlast (concat (replicate (rows ?b) (placeholderStrHelper ?b)))
      @ appended '','' ?b False = ''INSERT INTO t(id) VALUES (?)''"
    by (simp add: filled_fields appended_def placeholder_group_def)
  have v: "vals ?b = [7]" by (simp add: filled_fields)
  from Insert_one_batch[OF h1 h2 h3 h4 h5 refl]
  have p: "prepared (snd (snd (snd ?I))) = [''INSERT INTO t(id) VALUES (?)'']"
    and alt: "snd (snd (snd ?I)) = [Prepare ''INSERT INTO t(id) VALUES (?)'' None, Exec ''INSERT INTO t(id) VALUES (?)'' [7] None]
      \<or> (\<exists>e. fst ?I = ReturnErr e)"
    unfolding st v by auto
  from Insert_single[of ?b False accepting "()"] h1 h2 h3
  have "fst ?I = ReturnNil"
    by (auto simp: run_stmt_accepting placeholderStr_nonempty)
  with alt have "executed (snd (snd (snd ?I))) = [[7]]" by auto
  with h1 h2 h3 p show ?thesis by simp
qed

text \<open>Claim C3 as stated fails for the builder with no row: it has fewer than
  \<^verbatim>\<open>PLACEHOLDER_LIMIT\<close> values, and \<^verbatim>\<open>Insert\<close> panics without a statement.\<close>

theorem Insert_one_batch_needs_a_row:
  "length (vals (filled ''t'' [''id''] 0 [7 :: nat])) < PLACEHOLDER_LIMIT \<and>
   Insert accepting () (filled ''t'' [''id''] 0 [7 :: nat]) False =
     (GoPanic, filled ''t'' [''id''] 0 [7 :: nat], (), [])"
proof -
  let ?b = "filled ''t'' [''id''] 0 [7 :: nat]"
  have h1: "accumulated ?b" by (rule accumulated_filled) simp_all
  have h2: "rows ?b = 0" by (simp add: filled_fields)
  have h3: "length (vals ?b) < PLACEHOLDER_LIMIT"
    by (simp add: length_vals_filled PLACEHOLDER_LIMIT_def)
  from Insert_empty[OF h1 h2] h3 show ?thesis by simp
qed

text \<open>Claim C10, for a builder with one row and for a builder with none.\<close>

theorem trim_needs_a_row_witness:
  "accumulated (filled ''t'' [''id''] 1 [7 :: nat]) \<and>
   accumulated (filled ''t'' [''id''] 0 [7 :: nat]) \<and>
   trim_last (placeholderStr (filled ''t'' [''id''] 1 [7 :: nat])) = Some ''(?)'' \<and>
   fst (Insert accepting () (filled ''t'' [''id''] 1 [7 :: nat]) False) \<noteq> GoPanic \<and>
   trim_last (placeholderStr (filled ''t'' [''id''] 0 [7 :: nat])) = None \<and>
   Insert accepting () (filled ''t'' [''id''] 0 [7 :: nat]) False =
     (GoPanic, filled ''t'' [''id''] 0 [7 :: nat], (), [])"
proof -
  let ?b1 = "filled ''t'' [''id''] 1 [7 :: nat]" and ?b0 = "filled ''t'' [''id''] 0 [7 :: nat]"
  have a1: "accumulated ?b1" by (rule accumulated_filled) simp_all
  have a0: "accumulated ?b0" by (rule accumulated_filled) simp_all
  have r1: "1 \<le> rows ?b1" by (simp add: filled_fields)
  have r0: "rows ?b0 = 0" by (simp add: filled_fields)
  have p1: "butlast (placeholderStr ?b1) = ''(?)''"
    by (simp add: filled_fields placeholder_group_def)
  from trim_needs_a_row[OF a1, of False accepting "()"] r1
  have 1: "trim_last (placeholderStr ?b1) = Some ''(?)''"
    and 2: "fst (Insert accepting () ?b1 False) \<noteq> GoPanic"
    unfolding p1 by simp_all
  from trim_needs_a_row[OF a0, of False accepting "()"] r0
  have 3: "trim_last (placeholderStr ?b0) = None"
    and 4: "Insert accepting () ?b0 False = (GoPanic, ?b0, (), [])"
    by simp_all
  from a1 a0 1 2 3 4 show ?thesis by simp
qed


section \<open>Re-parsing the statement prefix\<close>

lemma Index_go_first:
  "c \<notin> set s \<Longrightarrow> Index_go (s @ c # r) [c] = int (length s)"
  by (induction s) (auto simp: HasPrefix_def Let_def)

lemma set_Join_go: "set (Join_go cs sep) \<subseteq> (\<Union>c\<in>set cs. set c) \<union> set sep"
  by (induction cs sep rule: Join_go.induct) auto

lemma columnsStr_prefix:
  assumes t1: "CHR ''('' \<notin> set t" and t2: "CHR '')'' \<notin> set t" and j: "CHR '')'' \<notin> set J"
  shows "columnsStr (''INSERT INTO '' @ t @ ''('' @ J @ '') VALUES '') = Some J"
proof -
  let ?init = "''INSERT INTO '' @ t @ ''('' @ J @ '') VALUES ''"
  have f1: "?init = (''INSERT INTO '' @ t) @ CHR ''('' # (J @ '') VALUES '')" by simp
  have "CHR ''('' \<notin> set (''INSERT INTO '' @ t)" using t1 by simp
  from Index_go_first[OF this, of "J @ '') VALUES ''"]
  have i1: "Index_go ?init ''('' = int (12 + length t)" unfolding f1[symmetric] by simp
  have f2: "?init = (''INSERT INTO '' @ t @ ''('' @ J) @ CHR '')'' # '' VALUES ''" by simp
  have "CHR '')'' \<notin> set (''INSERT INTO '' @ t @ ''('' @ J)" using t2 j by simp
  from Index_go_first[OF this, of "'' VALUES ''"]
  have i2: "Index_go ?init '')'' = int (13 + length t + length J)" unfolding f2[symmetric] by simp
  define p where "p = ''INSERT INTO '' @ t @ ''(''"
  have lp: "length p = 13 + length t" by (simp add: p_def)
  have ip: "?init = p @ (J @ '') VALUES '')" by (simp add: p_def)
  have "drop (length p) (p @ (J @ '') VALUES '')) = J @ '') VALUES ''" by simp
  then have d: "drop (13 + length t) ?init = J @ '') VALUES ''" by (simp only: ip lp)
  have "slice_go ?init (int (12 + length t) + 1) (int (13 + length t + length J)) = Some J"
    using d by (simp add: slice_go_def nat_add_distrib)
  then show ?thesis unfolding columnsStr_def Let_def i1 i2 .
qed

lemma foldl_terms:
  "foldl (\<lambda>e v. e @ v @ ''=VALUES('' @ v @ ''),'') e columns =
     e @ concat (map (\<lambda>v. (v @ ''=VALUES('' @ v @ '')'') @ '','') columns)"
  by (induction columns arbitrary: e) simp_all

lemma butlast_terms:
  "columns \<noteq> [] \<Longrightarrow> butlast (concat (map (\<lambda>v. g v @ '','') columns)) = Join_go (map g columns) '',''"
proof (induction columns rule: induct_list012)
  case 1
  then show ?case by simp
next
  case (2 x)
  show ?case by simp
next
  case (3 x y zs)
  have ne: "concat (map (\<lambda>v. g v @ '','') (y # zs)) \<noteq> []" by simp
  have "butlast (concat (map (\<lambda>v. g v @ '','') (x # y # zs)))
      = (g x @ '','') @ butlast (concat (map (\<lambda>v. g v @ '','') (y # zs)))"
    using ne by (simp only: list.map concat.simps butlast_append if_False)
  then show ?case using 3 by simp
qed

lemma endStr_upsert_of:
  assumes "columns \<noteq> []"
  shows "endStr columns = Some (upsert_of columns)"
proof -
  let ?g = "\<lambda>v. v @ ''=VALUES('' @ v @ '')''"
  let ?body = "concat (map (\<lambda>v. ?g v @ '','') columns)"
  have ne: "?body \<noteq> []" using assms by (cases columns) simp_all
  have "butlast ('' ON DUPLICATE KEY UPDATE '' @ ?body) = '' ON DUPLICATE KEY UPDATE '' @ butlast ?body"
    using ne by (simp only: butlast_append if_False)
  also have "\<dots> = upsert_of columns"
    unfolding upsert_of_def using butlast_terms[OF assms, of ?g] by simp
  finally have b: "butlast ('' ON DUPLICATE KEY UPDATE '' @ ?body) = upsert_of columns" .
  have "endStr columns = trim_last ('' ON DUPLICATE KEY UPDATE '' @ ?body)"
    by (simp only: endStr_def foldl_terms)
  also have "\<dots> = Some (butlast ('' ON DUPLICATE KEY UPDATE '' @ ?body))"
    by (simp add: trim_last_eq)
  finally show ?thesis by (simp only: b)
qed

lemma Split_from_skip:
  assumes "CHR '','' \<notin> set x" and "sep = '','' \<or> sep = '', ''"
  shows "Split_from sep cur (x @ r) = Split_from sep (cur @ x) r"
  using assms by (induction x arbitrary: cur) (auto simp: HasPrefix_def)

lemma Split_from_Join_same:
  assumes "\<forall>c\<in>set cs. CHR '','' \<notin> set c" and "cs \<noteq> []"
  shows "Split_from '', '' cur (Join_go cs '', '') = (cur @ hd cs) # tl cs"
  using assms
proof (induction cs arbitrary: cur rule: induct_list012)
  case 1
  then show ?case by simp
next
  case (2 x)
  then have "Split_from '', '' cur (x @ []) = Split_from '', '' (cur @ x) []"
    by (intro Split_from_skip) simp_all
  then show ?case by simp
next
  case (3 x y zs)
  have "Split_from '', '' cur (x @ ('', '' @ Join_go (y # zs) '', ''))
      = Split_from '', '' (cur @ x) ('', '' @ Join_go (y # zs) '', '')"
    using 3(3) by (intro Split_from_skip) simp_all
  also have "\<dots> = (cur @ x) # Split_from '', '' [] (Join_go (y # zs) '', '')"
    by (simp add: HasPrefix_def)
  also have "\<dots> = (cur @ x) # ([] @ hd (y # zs)) # tl (y # zs)"
    using 3(2)[of "[]"] 3(3) by simp
  finally show ?case by simp
qed

lemma Split_from_Join_comma:
  assumes "\<forall>c\<in>set cs. CHR '','' \<notin> set c" and "cs \<noteq> []"
  shows "Split_from '','' cur (Join_go cs '', '') = (cur @ hd cs) # map ((@) '' '') (tl cs)"
  using assms
proof (induction cs arbitrary: cur rule: induct_list012)
  case 1
  then show ?case by simp
next
  case (2 x)
  then have "Split_from '','' cur (x @ []) = Split_from '','' (cur @ x) []"
    by (intro Split_from_skip) simp_all
  then show ?case by simp
next
  case (3 x y zs)
  have "Split_from '','' cur (x @ ('', '' @ Join_go (y # zs) '', ''))
      = Split_from '','' (cur @ x) ('', '' @ Join_go (y # zs) '', '')"
    using 3(3) by (intro Split_from_skip) simp_all
  also have "\<dots> = (cur @ x) # Split_from '','' '' '' (Join_go (y # zs) '', '')"
    by (simp add: HasPrefix_def)
  also have "\<dots> = (cur @ x) # ('' '' @ hd (y # zs)) # map ((@) '' '') (tl (y # zs))"
    using 3(2)[of "'' ''"] 3(3) by simp
  finally show ?case by simp
qed

section \<open>The separators of the two paths\<close>

lemma Join_go_no_paren:
  assumes "\<forall>c\<in>set cols. CHR '')'' \<notin> set c"
  shows "CHR '')'' \<notin> set (Join_go cols '', '')"
proof
  assume "CHR '')'' \<in> set (Join_go cols '', '')"
  with set_Join_go[of cols "'', ''"] have "CHR '')'' \<in> (\<Union>c\<in>set cols. set c) \<union> set '', ''" by blast
  with assms show False by auto
qed

lemma reparse_prefix:
  assumes i: "init = ''INSERT INTO '' @ t @ ''('' @ Join_go cols '', '' @ '') VALUES ''"
    and ne: "cols \<noteq> []"
    and t: "CHR ''('' \<notin> set t \<and> CHR '')'' \<notin> set t"
    and c: "\<forall>c\<in>set cols. CHR '','' \<notin> set c \<and> CHR '')'' \<notin> set c"
  shows "columnsStr init = Some (Join_go cols '', '')"
    and "Split_go (Join_go cols '', '') '','' = hd cols # map ((@) '' '') (tl cols)"
    and "Split_go (Join_go cols '', '') '', '' = cols"
    and "upsert_clause '','' init = upsert_of (hd cols # map ((@) '' '') (tl cols))"
    and "upsert_clause '', '' init = upsert_of cols"
proof -
  from c have c1: "\<forall>c\<in>set cols. CHR '','' \<notin> set c" and c2: "\<forall>c\<in>set cols. CHR '')'' \<notin> set c"
    by simp_all
  show cs: "columnsStr init = Some (Join_go cols '', '')"
    unfolding i using t Join_go_no_paren[OF c2] by (intro columnsStr_prefix) simp_all
  show s1: "Split_go (Join_go cols '', '') '','' = hd cols # map ((@) '' '') (tl cols)"
    unfolding Split_go_def using Split_from_Join_comma[OF c1 ne, of "[]"] by simp
  show s2: "Split_go (Join_go cols '', '') '', '' = cols"
    unfolding Split_go_def using Split_from_Join_same[OF c1 ne, of "[]"] ne by simp
  have e1: "endStr (hd cols # map ((@) '' '') (tl cols)) = Some (upsert_of (hd cols # map ((@) '' '') (tl cols)))"
    by (rule endStr_upsert_of) simp
  show "upsert_clause '','' init = upsert_of (hd cols # map ((@) '' '') (tl cols))"
    by (simp add: upsert_clause_def cs s1 e1)
  show "upsert_clause '', '' init = upsert_of cols"
    by (simp add: upsert_clause_def cs s2 endStr_upsert_of[OF ne])
qed

lemma batch_upsert:
  assumes "columnsStr (initStr b) \<noteq> None"
  shows "batch b True i =
     (case batch b False i of
        None \<Rightarrow> None
      | Some (str, vs) \<Rightarrow> Some (str @ upsert_clause '', '' (initStr b), vs))"
  unfolding batch_def batch_stmt_def
  by (simp add: add_upsert_clause[OF assms] split: option.splits prod.splits)

text \<open>Claim C7, amended by exchanging the two paths. For a prefix built by \<^verbatim>\<open>Init\<close> from a
  table name without parentheses and columns without comma and closing parenthesis, the
  text cut out of the prefix is the columns joined by \<^verbatim>\<open>", "\<close>. The path for fewer than
  \<^verbatim>\<open>PLACEHOLDER_LIMIT\<close> values splits it on \<^verbatim>\<open>","\<close>, so that every column but the first keeps a
  leading space in the clause; the path of the batches splits it on \<^verbatim>\<open>", "\<close>, which gives
  back the columns, and appends the clause of the specification to what it prepares
  without the upsert.\<close>

theorem upsert_separators:
  fixes b :: "'v Bulk"
  assumes init: "Init b0 t cols = Some b1" and same: "initStr b = initStr b1"
    and t: "CHR ''('' \<notin> set t \<and> CHR '')'' \<notin> set t"
    and c: "\<forall>c\<in>set cols. CHR '','' \<notin> set c \<and> CHR '')'' \<notin> set c"
  shows "columnsStr (initStr b) = Some (Join_go cols '', '') \<and>
     Split_go (Join_go cols '', '') '','' = hd cols # map ((@) '' '') (tl cols) \<and>
     Split_go (Join_go cols '', '') '', '' = cols \<and>
     single_stmt b True =
       Some (initStr b @ placeholderStr b @ upsert_of (hd cols # map ((@) '' '') (tl cols))) \<and>
     (\<forall>i s vs. batch b True i = Some (s, vs) \<longrightarrow>
        (\<exists>str. batch b False i = Some (str, vs) \<and> s = str @ upsert_of cols))"
proof -
  from init have ne: "cols \<noteq> []" by (cases "cols = []") (simp_all add: Init_none)
  from init same have i: "initStr b = ''INSERT INTO '' @ t @ ''('' @ Join_go cols '', '' @ '') VALUES ''"
    by (auto simp: Init_zero[OF ne])
  note r = reparse_prefix[OF i ne t c]
  have cs: "columnsStr (initStr b) \<noteq> None" by (simp add: r(1))
  have 4: "single_stmt b True =
       Some (initStr b @ placeholderStr b @ upsert_of (hd cols # map ((@) '' '') (tl cols)))"
    by (simp add: single_stmt_def add_upsert_clause[OF cs] r(4))
  have 5: "\<forall>i s vs. batch b True i = Some (s, vs) \<longrightarrow>
        (\<exists>str. batch b False i = Some (str, vs) \<and> s = str @ upsert_of cols)"
    by (auto simp: batch_upsert[OF cs] r(5) split: option.splits)
  from r(1) r(2) r(3) 4 5 show ?thesis by (intro conjI)
qed

section \<open>The columns a and b\<close>

lemma ab_prefix:
  "initStr (filled ''t'' [''a'', ''b''] n [7 :: nat, 8]) =
     ''INSERT INTO '' @ ''t'' @ ''('' @ Join_go [''a'', ''b''] '', '' @ '') VALUES ''"
  by (simp add: filled_fields)

lemma ab_reparse:
  "columnsStr (initStr (filled ''t'' [''a'', ''b''] n [7 :: nat, 8])) = Some ''a, b''"
  "upsert_clause '','' (initStr (filled ''t'' [''a'', ''b''] n [7 :: nat, 8]))
     = '' ON DUPLICATE KEY UPDATE a=VALUES(a), b=VALUES( b)''"
  "upsert_clause '', '' (initStr (filled ''t'' [''a'', ''b''] n [7 :: nat, 8]))
     = '' ON DUPLICATE KEY UPDATE a=VALUES(a),b=VALUES(b)''"
proof -
  have ne: "[''a'', ''b''] \<noteq> []" by simp
  have t: "CHR ''('' \<notin> set ''t'' \<and> CHR '')'' \<notin> set ''t''" by simp
  have c: "\<forall>c\<in>set [''a'', ''b'']. CHR '','' \<notin> set c \<and> CHR '')'' \<notin> set c" by simp
  note r = reparse_prefix[OF ab_prefix ne t c]
  show "columnsStr (initStr (filled ''t'' [''a'', ''b''] n [7 :: nat, 8])) = Some ''a, b''"
    using r(1) by simp
  show "upsert_clause '','' (initStr (filled ''t'' [''a'', ''b''] n [7 :: nat, 8]))
     = '' ON DUPLICATE KEY UPDATE a=VALUES(a), b=VALUES( b)''"
    using r(4) by (simp add: upsert_of_def)
  show "upsert_clause '', '' (initStr (filled ''t'' [''a'', ''b''] n [7 :: nat, 8]))
     = '' ON DUPLICATE KEY UPDATE a=VALUES(a),b=VALUES(b)''"
    using r(5) by (simp add: upsert_of_def)
qed

lemma ab_single:
  "Insert accepting () (filled ''t'' [''a'', ''b''] (Suc 0) [7 :: nat, 8]) True =
     (ReturnNil,
      (filled ''t'' [''a'', ''b''] (Suc 0) [7 :: nat, 8])\<lparr>placeholderStr := ''(?,?)''\<rparr>, (),
      [Prepare ''INSERT INTO t(a, b) VALUES (?,?) ON DUPLICATE KEY UPDATE a=VALUES(a), b=VALUES( b)'' None,
       Exec ''INSERT INTO t(a, b) VALUES (?,?) ON DUPLICATE KEY UPDATE a=VALUES(a), b=VALUES( b)'' [7, 8] None])"
proof -
  let ?b = "filled ''t'' [''a'', ''b''] (Suc 0) [7 :: nat, 8]"
  have p: "placeholderStr ?b = ''(?,?),''" by (simp add: filled_fields placeholder_group_def)
  have ne: "placeholderStr ?b \<noteq> []" by (simp add: p)
  have small: "length (vals ?b) < PLACEHOLDER_LIMIT"
    by (simp add: length_vals_filled PLACEHOLDER_LIMIT_def)
  have up: "True \<longrightarrow> columnsStr (initStr ?b) \<noteq> None" by (simp add: ab_reparse)
  have v: "vals ?b = [7, 8]" by (simp add: filled_fields)
  have st: "initStr ?b @ butlast (placeholderStr ?b) @ appended '','' ?b True =
      ''INSERT INTO t(a, b) VALUES (?,?) ON DUPLICATE KEY UPDATE a=VALUES(a), b=VALUES( b)''"
    by (simp add: appended_def ab_reparse p) (simp add: filled_fields)
  from Insert_single[OF ne small up, of accepting "()"]
  show ?thesis unfolding st v by (simp add: run_stmt_accepting p)
qed

text \<open>Claim C6 fails on the code, on the path for fewer than \<^verbatim>\<open>PLACEHOLDER_LIMIT\<close> values:
  for the columns \<^verbatim>\<open>a\<close> and \<^verbatim>\<open>b\<close>, one row and the upsert, the statement prepared ends with
  \<^verbatim>\<open>a=VALUES(a), b=VALUES( b)\<close>, with a space before the second column.\<close>

theorem single_batch_upsert_clause:
  "prepared (snd (snd (snd (Insert accepting () (filled ''t'' [''a'', ''b''] (Suc 0) [7 :: nat, 8]) True)))) =
     [''INSERT INTO t(a, b) VALUES (?,?) ON DUPLICATE KEY UPDATE a=VALUES(a), b=VALUES( b)'']"
  by (simp add: ab_single)

lemma ab_batched:
  "batchs_of (filled ''t'' [''a'', ''b''] 30000 [7 :: nat, 8]) = 1"
  "\<exists>str. batch (filled ''t'' [''a'', ''b''] 30000 [7 :: nat, 8]) False 0 =
            Some (str, vals (filled ''t'' [''a'', ''b''] 30000 [7 :: nat, 8])) \<and>
         batch (filled ''t'' [''a'', ''b''] 30000 [7 :: nat, 8]) True 0 =
            Some (str @ '' ON DUPLICATE KEY UPDATE a=VALUES(a),b=VALUES(b)'',
                  vals (filled ''t'' [''a'', ''b''] 30000 [7 :: nat, 8]))"
proof -
  let ?b = "filled ''t'' [''a'', ''b''] 30000 [7 :: nat, 8]"
  have acc: "accumulated ?b" by (rule accumulated_filled) simp_all
  have len: "length (vals ?b) = 60000" by (simp add: length_vals_filled)
  have big: "PLACEHOLDER_LIMIT \<le> length (vals ?b)" by (simp add: len PLACEHOLDER_LIMIT_def)
  show B: "batchs_of ?b = 1"
    by (rule batchs_of_unique) (simp_all add: len PLACEHOLDER_LIMIT_def)
  have S: "Suc 0 = batchs_of ?b" by (simp add: B)
  have up: "False \<longrightarrow> columnsStr (initStr ?b) \<noteq> None" by simp
  from batch_last[OF acc big S up]
  obtain str where f: "batch ?b False 0 = Some (str, vals ?b)" by simp
  have cs: "columnsStr (initStr ?b) \<noteq> None" by (simp add: ab_reparse)
  have "batch ?b True 0 = Some (str @ '' ON DUPLICATE KEY UPDATE a=VALUES(a),b=VALUES(b)'', vals ?b)"
    by (simp add: batch_upsert[OF cs] f ab_reparse)
  with f show "\<exists>str. batch ?b False 0 = Some (str, vals ?b) \<and>
         batch ?b True 0 = Some (str @ '' ON DUPLICATE KEY UPDATE a=VALUES(a),b=VALUES(b)'', vals ?b)"
    by blast
qed

text \<open>Claim C7 as stated fails for the columns \<^verbatim>\<open>a\<close> and \<^verbatim>\<open>b\<close>: the statement of the path for
  fewer than \<^verbatim>\<open>PLACEHOLDER_LIMIT\<close> values is not the one that a split on \<^verbatim>\<open>", "\<close> gives but
  the one of a split on \<^verbatim>\<open>","\<close>, and the statement of the first batch of 60000 values is
  not the one that a split on \<^verbatim>\<open>","\<close> gives but the one of a split on \<^verbatim>\<open>", "\<close>.\<close>

theorem upsert_separators_as_claimed_fail:
  "single_stmt ((filled ''t'' [''a'', ''b''] (Suc 0) [7 :: nat, 8])\<lparr>placeholderStr := ''(?,?)''\<rparr>) True \<noteq>
     Some (''INSERT INTO t(a, b) VALUES (?,?)'' @
           upsert_clause '', '' (initStr (filled ''t'' [''a'', ''b''] (Suc 0) [7 :: nat, 8]))) \<and>
   single_stmt ((filled ''t'' [''a'', ''b''] (Suc 0) [7 :: nat, 8])\<lparr>placeholderStr := ''(?,?)''\<rparr>) True =
     Some (''INSERT INTO t(a, b) VALUES (?,?)'' @
           upsert_clause '','' (initStr (filled ''t'' [''a'', ''b''] (Suc 0) [7 :: nat, 8]))) \<and>
   batch (filled ''t'' [''a'', ''b''] 30000 [7 :: nat, 8]) False 0 \<noteq> None \<and>
   batch (filled ''t'' [''a'', ''b''] 30000 [7 :: nat, 8]) True 0 \<noteq>
     Some (fst (the (batch (filled ''t'' [''a'', ''b''] 30000 [7 :: nat, 8]) False 0))
             @ upsert_clause '','' (initStr (filled ''t'' [''a'', ''b''] 30000 [7 :: nat, 8])),
           vals (filled ''t'' [''a'', ''b''] 30000 [7 :: nat, 8])) \<and>
   batch (filled ''t'' [''a'', ''b''] 30000 [7 :: nat, 8]) True 0 =
     Some (fst (the (batch (filled ''t'' [''a'', ''b''] 30000 [7 :: nat, 8]) False 0))
             @ upsert_clause '', '' (initStr (filled ''t'' [''a'', ''b''] 30000 [7 :: nat, 8])),
           vals (filled ''t'' [''a'', ''b''] 30000 [7 :: nat, 8]))"
proof -
  let ?b = "filled ''t'' [''a'', ''b''] (Suc 0) [7 :: nat, 8]"
  have cs: "columnsStr (initStr ?b) \<noteq> None" by (simp add: ab_reparse)
  have i: "initStr ?b = ''INSERT INTO t(a, b) VALUES ''" by (simp add: filled_fields)
  have s: "single_stmt (?b\<lparr>placeholderStr := ''(?,?)''\<rparr>) True =
     Some (''INSERT INTO t(a, b) VALUES (?,?)'' @ upsert_clause '','' (initStr ?b))"
    using add_upsert_clause[OF cs, of "'',''" "''INSERT INTO t(a, b) VALUES (?,?)''"]
    by (simp add: single_stmt_def i)
  have d: "upsert_clause '','' (initStr ?b) \<noteq> upsert_clause '', '' (initStr ?b)"
    by (simp add: ab_reparse)
  from ab_batched(2) obtain str where
    f: "batch (filled ''t'' [''a'', ''b''] 30000 [7 :: nat, 8]) False 0 =
            Some (str, vals (filled ''t'' [''a'', ''b''] 30000 [7 :: nat, 8]))"
    and g: "batch (filled ''t'' [''a'', ''b''] 30000 [7 :: nat, 8]) True 0 =
            Some (str @ '' ON DUPLICATE KEY UPDATE a=VALUES(a),b=VALUES(b)'',
                  vals (filled ''t'' [''a'', ''b''] 30000 [7 :: nat, 8]))"
    by blast
  show ?thesis
    apply (intro conjI)
    using s d f g by (simp_all add: ab_reparse)
qed

text \<open>Claim C7 as amended, for the table \<^verbatim>\<open>t\<close> and the columns \<^verbatim>\<open>a\<close> and \<^verbatim>\<open>b\<close>, on either
  path.\<close>

theorem upsert_separators_witness:
  "Split_go ''a, b'' '','' = [''a'', '' b''] \<and>
   Split_go ''a, b'' '', '' = [''a'', ''b''] \<and>
   single_stmt ((filled ''t'' [''a'', ''b''] (Suc 0) [7 :: nat, 8])\<lparr>placeholderStr := ''(?,?)''\<rparr>) True =
     Some ''INSERT INTO t(a, b) VALUES (?,?) ON DUPLICATE KEY UPDATE a=VALUES(a), b=VALUES( b)'' \<and>
   (\<exists>str. batch (filled ''t'' [''a'', ''b''] 30000 [7 :: nat, 8]) False 0 =
            Some (str, vals (filled ''t'' [''a'', ''b''] 30000 [7 :: nat, 8])) \<and>
      batch (filled ''t'' [''a'', ''b''] 30000 [7 :: nat, 8]) True 0 =
        Some (str @ '' ON DUPLICATE KEY UPDATE a=VALUES(a),b=VALUES(b)'',
              vals (filled ''t'' [''a'', ''b''] 30000 [7 :: nat, 8])))"
proof -
  let ?b = "(filled ''t'' [''a'', ''b''] (Suc 0) [7 :: nat, 8])\<lparr>placeholderStr := ''(?,?)''\<rparr>"
  let ?bb = "filled ''t'' [''a'', ''b''] 30000 [7 :: nat, 8]"
  let ?b1 = "the (Init Bulk_zero ''t'' [''a'', ''b'']) :: nat Bulk"
  have init: "Init Bulk_zero ''t'' [''a'', ''b''] = Some ?b1" by (simp add: Init_def Repeat_go_def)
  have i1: "initStr ?b1 = ''INSERT INTO t(a, b) VALUES ''" by (simp add: Init_def Repeat_go_def)
  have same: "initStr ?b = initStr ?b1" by (simp add: i1 filled_fields)
  have same': "initStr ?bb = initStr ?b1" by (simp add: i1 filled_fields)
  have t: "CHR ''('' \<notin> set ''t'' \<and> CHR '')'' \<notin> set ''t''" by simp
  have c: "\<forall>c\<in>set [''a'', ''b'']. CHR '','' \<notin> set c \<and> CHR '')'' \<notin> set c" by simp
  from upsert_separators[OF init same t c]
  have 1: "Split_go ''a, b'' '','' = [''a'', '' b'']"
    and 2: "Split_go ''a, b'' '', '' = [''a'', ''b'']"
    and 3: "single_stmt ?b True =
      Some ''INSERT INTO t(a, b) VALUES (?,?) ON DUPLICATE KEY UPDATE a=VALUES(a), b=VALUES( b)''"
    by (simp_all add: upsert_of_def filled_fields)
  from ab_batched(2) obtain str where
    f: "batch ?bb False 0 = Some (str, vals ?bb)"
    and g: "batch ?bb True 0 = Some (str @ '' ON DUPLICATE KEY UPDATE a=VALUES(a),b=VALUES(b)'', vals ?bb)"
    by blast
  from upsert_separators[OF init same' t c] g
  have "\<exists>str'. batch ?bb False 0 = Some (str', vals ?bb) \<and>
     str @ '' ON DUPLICATE KEY UPDATE a=VALUES(a),b=VALUES(b)'' = str' @ upsert_of [''a'', ''b'']"
    by blast
  with f have 4: "\<exists>str. batch ?bb False 0 = Some (str, vals ?bb) \<and>
      batch ?bb True 0 = Some (str @ '' ON DUPLICATE KEY UPDATE a=VALUES(a),b=VALUES(b)'', vals ?bb)"
    using g by blast
  from 1 2 3 4 show ?thesis by (intro conjI)
qed

section \<open>Placeholder markers and the limit\<close>

lemma markers_append: "markers (a @ b) = markers a + markers b"
  by (simp add: markers_def)

lemma markers_concat_replicate: "markers (concat (replicate n h)) = n * markers h"
  by (induction n) (simp_all add: markers_append, simp add: markers_def)

lemma markers_placeholder_group: "1 \<le> k \<Longrightarrow> markers (placeholder_group k) = k"
proof -
  assume k: "1 \<le> k"
  have "markers (placeholder_group k) = markers ''(?'' + markers (concat (replicate (k - 1) '',?'')) + markers ''),''"
    by (simp only: placeholder_group_def markers_append add.assoc)
  also have "\<dots> = 1 + (k - 1) * 1 + 0"
    by (simp only: markers_concat_replicate) (simp add: markers_def)
  finally show ?thesis using k by simp
qed

lemma markers_butlast:
  assumes "s \<noteq> []" and "last s \<noteq> CHR ''?''"
  shows "markers (butlast s) = markers s"
proof -
  have "markers s = markers (butlast s @ [last s])" using assms(1) by simp
  also have "\<dots> = markers (butlast s)" using assms(2) by (simp add: markers_append) (simp add: markers_def)
  finally show ?thesis by simp
qed

lemma last_placeholder_group: "last (placeholder_group k) = CHR '',''"
  by (simp add: placeholder_group_def)

lemma markers_batch_text:
  assumes acc: "accumulated b" and m: "1 \<le> m"
  shows "markers (butlast (initStr b @ concat (replicate m (placeholderStrHelper b))))
     = markers (initStr b) + m * valuesPerRow b"
proof -
  let ?h = "placeholderStrHelper b"
  from acc have h: "?h = placeholder_group (valuesPerRow b)" and k: "1 \<le> valuesPerRow b"
    by (simp_all add: accumulated_def)
  from m obtain m' where m': "m = Suc m'" by (cases m) simp_all
  have hne: "?h \<noteq> []" by (simp add: h placeholder_group_nonempty)
  have c: "concat (replicate m ?h) = concat (replicate m' ?h) @ ?h"
    unfolding m' by (rule concat_replicate_Suc)
  have l: "last (initStr b @ concat (replicate m ?h)) = CHR '',''"
    unfolding c by (simp add: h placeholder_group_nonempty last_placeholder_group)
  have ne: "initStr b @ concat (replicate m ?h) \<noteq> []" using hne by (simp add: c)
  have "markers (butlast (initStr b @ concat (replicate m ?h))) = markers (initStr b @ concat (replicate m ?h))"
    by (rule markers_butlast[OF ne]) (simp add: l)
  also have "\<dots> = markers (initStr b) + m * valuesPerRow b"
    by (simp add: markers_append markers_concat_replicate h markers_placeholder_group[OF k])
  finally show ?thesis .
qed

text \<open>Claim C2 fails on the code. With seven columns the batches have 8571 rows, that is 59997
  values, but their number is computed from \<^verbatim>\<open>PLACEHOLDER_LIMIT\<close>: for 25714 rows (179998
  values) there are three batches, and the last one is prepared with 60004 placeholder
  markers and executed with 60004 values.\<close>

theorem last_batch_over_limit:
  "fst (Insert accepting ()
          (filled ''t'' [''a'', ''b'', ''c'', ''d'', ''e'', ''f'', ''g''] 25714 [11, 12, 13, 14, 15, 16, 17 :: nat])
          False) = ReturnNil \<and>
   length (prepared (snd (snd (snd (Insert accepting ()
          (filled ''t'' [''a'', ''b'', ''c'', ''d'', ''e'', ''f'', ''g''] 25714 [11, 12, 13, 14, 15, 16, 17 :: nat])
          False))))) = 3 \<and>
   markers (last (prepared (snd (snd (snd (Insert accepting ()
          (filled ''t'' [''a'', ''b'', ''c'', ''d'', ''e'', ''f'', ''g''] 25714 [11, 12, 13, 14, 15, 16, 17 :: nat])
          False)))))) = 60004 \<and>
   length (last (executed (snd (snd (snd (Insert accepting ()
          (filled ''t'' [''a'', ''b'', ''c'', ''d'', ''e'', ''f'', ''g''] 25714 [11, 12, 13, 14, 15, 16, 17 :: nat])
          False)))))) = 60004 \<and>
   PLACEHOLDER_LIMIT < 60004"
proof -
  let ?b = "filled ''t'' [''a'', ''b'', ''c'', ''d'', ''e'', ''f'', ''g''] 25714 [11, 12, 13, 14, 15, 16, 17 :: nat]"
  have acc: "accumulated ?b" by (rule accumulated_filled) simp_all
  have len: "length (vals ?b) = 179998" by (simp add: length_vals_filled)
  have big: "PLACEHOLDER_LIMIT \<le> length (vals ?b)" by (simp add: len PLACEHOLDER_LIMIT_def)
  have B: "batchs_of ?b = 3"
    by (rule batchs_of_unique) (simp_all add: len PLACEHOLDER_LIMIT_def)
  have k: "valuesPerRow ?b = 7" and r: "rows ?b = 25714" by (simp_all add: filled_fields)
  have rpb: "rowsPerBatch_of ?b = 8571" by (simp add: rowsPerBatch_of_def k PLACEHOLDER_LIMIT_def)
  have up: "False \<longrightarrow> columnsStr (initStr ?b) \<noteq> None" by simp
  have S: "Suc 2 = batchs_of ?b" by (simp add: B)
  have i0: "markers (initStr ?b) = 0" by (simp add: filled_fields markers_def)
  have b2: "batch ?b False 2 =
      Some (butlast (initStr ?b @ concat (replicate 8572 (placeholderStrHelper ?b))), drop 119994 (vals ?b))"
    using batch_last[OF acc big S up] by (simp add: rpb k r appended_def)
  have m: "markers (butlast (initStr ?b @ concat (replicate 8572 (placeholderStrHelper ?b)))) = 60004"
    using markers_batch_text[OF acc, of 8572] by (simp add: i0 k)
  have v: "length (drop 119994 (vals ?b)) = 60004" by (simp add: len)
  from Insert_loop_plan[OF acc big succeeds_accepting up, of "()"]
  have ins: "Insert accepting () ?b False =
      (ReturnNil, ?b, (), ok_calls (map (\<lambda>j. the (batch ?b False j)) [0..<batchs_of ?b]))"
    by simp
  let ?tr = "ok_calls (map (\<lambda>j. the (batch ?b False j)) [0..<batchs_of ?b]) :: (nat, string) call list"
  have p: "prepared ?tr = map (\<lambda>j. fst (the (batch ?b False j))) [0..<3]"
    by (simp add: prepared_ok_calls B o_def)
  have e: "executed ?tr = map (\<lambda>j. snd (the (batch ?b False j))) [0..<3]"
    by (simp add: executed_ok_calls B o_def)
  have "[0..<Suc (Suc (Suc 0))] = [0, Suc 0, Suc (Suc 0)]" by simp
  then have u: "[0..<3] = [0, 1, 2]" by (simp only: numeral_3_eq_3 numeral_2_eq_2 One_nat_def)
  have 1: "length (prepared ?tr) = 3" by (simp add: p)
  have 2: "markers (last (prepared ?tr)) = 60004" by (simp add: p u b2 m)
  have 3: "length (last (executed ?tr)) = 60004" by (simp add: e u b2 len)
  have 4: "PLACEHOLDER_LIMIT < 60004" by (simp add: PLACEHOLDER_LIMIT_def)
  show ?thesis
    unfolding ins fst_conv snd_conv
    by (intro conjI) (rule refl 1 2 3 4)+
qed

section \<open>More values per row than the limit\<close>

lemma wide_rows:
  assumes acc: "accumulated b" and wide: "PLACEHOLDER_LIMIT < valuesPerRow b" and r: "1 \<le> rows b"
  shows "rowsPerBatch_of b = 0" and "PLACEHOLDER_LIMIT \<le> length (vals b)" and "Suc 0 < batchs_of b"
proof -
  show "rowsPerBatch_of b = 0" using wide by (simp add: rowsPerBatch_of_def)
  from acc have n: "length (vals b) = rows b * valuesPerRow b" by (simp add: accumulated_def)
  have "1 * valuesPerRow b \<le> rows b * valuesPerRow b" using r by (rule mult_le_mono1)
  then have "valuesPerRow b \<le> rows b * valuesPerRow b" by (simp only: mult_1)
  with wide n have lt: "PLACEHOLDER_LIMIT < length (vals b)" by linarith
  then show "PLACEHOLDER_LIMIT \<le> length (vals b)" by simp
  show "Suc 0 < batchs_of b"
  proof (rule ccontr)
    assume "\<not> Suc 0 < batchs_of b"
    then have "batchs_of b \<le> 1" by simp
    then have "batchs_of b * PLACEHOLDER_LIMIT \<le> 1 * PLACEHOLDER_LIMIT"
      by (rule mult_le_mono1)
    then have "batchs_of b * PLACEHOLDER_LIMIT \<le> PLACEHOLDER_LIMIT" by (simp only: mult_1)
    with batchs_of_upper[of b] lt show False by linarith
  qed
qed

lemma wide_first_batch:
  assumes acc: "accumulated b" and wide: "PLACEHOLDER_LIMIT < valuesPerRow b" and r: "1 \<le> rows b"
    and up: "up \<longrightarrow> columnsStr (initStr b) \<noteq> None"
  shows "batch b up 0 = Some (butlast (initStr b) @ appended '', '' b up, [])"
  using batch_nonlast[OF acc wide_rows(2)[OF acc wide r] wide_rows(3)[OF acc wide r] up]
  by (simp add: wide_rows(1)[OF acc wide r])

lemma Insert_loop_first_call:
  assumes lt: "0 < B" and bs: "batch_stmt b up B r c 0 = Some (s, vs)"
    and loop: "Insert_loop ex b up B r c 0 d [] = (out, d', tr)"
  shows "\<exists>rp rest. tr = Prepare s rp # rest"
proof -
  from Insert_loop_char[OF loop] obtain m rest where
    all: "\<forall>j. 0 \<le> j \<and> j < m \<longrightarrow> batch_stmt b up B r c j \<noteq> None"
    and tr: "tr = [] @ ok_calls (map (\<lambda>j. the (batch_stmt b up B r c j)) [0..<m]) @ rest"
    and cases: "(out = ReturnNil \<and> B \<le> m \<and> rest = []) \<or>
      (out = GoPanic \<and> m < B \<and> batch_stmt b up B r c m = None \<and> rest = []) \<or>
      (\<exists>e s vs. out = ReturnErr e \<and> m < B \<and> batch_stmt b up B r c m = Some (s, vs) \<and>
         (rest = [Prepare s (Some e)] \<or> rest = [Prepare s None, Exec s vs (Some e)]))"
    by blast
  show ?thesis
  proof (cases m)
    case 0
    with cases lt bs have "\<exists>rp rest'. rest = Prepare s rp # rest'" by auto
    with tr 0 show ?thesis by (simp add: ok_calls_Nil)
  next
    case (Suc m')
    then have "[0..<m] = 0 # [Suc 0..<m]" by (simp add: upt_conv_Cons)
    then show ?thesis using tr bs by (simp add: ok_calls_Cons)
  qed
qed

lemma Insert_loop_error_reply:
  assumes loop: "Insert_loop ex b up B r c i d [] = (ReturnErr e, d', tr)"
  shows "tr \<noteq> [] \<and> reply (last tr) = Some e"
proof -
  from Insert_loop_char[OF loop] obtain m rest where
    tr: "tr = [] @ ok_calls (map (\<lambda>j. the (batch_stmt b up B r c j)) [i..<m]) @ rest"
    and cases: "\<exists>e' s vs. ReturnErr e = ReturnErr e' \<and>
         (rest = [Prepare s (Some e')] \<or> rest = [Prepare s None, Exec s vs (Some e')])"
    by auto
  from cases obtain s vs where
    "rest = [Prepare s (Some e)] \<or> rest = [Prepare s None, Exec s vs (Some e)]" by auto
  then show ?thesis unfolding tr by auto
qed

text \<open>Claim C8, amended: there is no configuration check in \<^verbatim>\<open>Insert\<close>. For an accumulated
  builder with at least one row and more values per row than \<^verbatim>\<open>PLACEHOLDER_LIMIT\<close> (and,
  when the upsert is requested, a prefix whose column text can be cut out), the number of
  rows per batch is zero, \<^verbatim>\<open>Insert\<close> does not panic, and its first call prepares batch 0,
  which is the prefix less its last character (and what the upsert appends) with no
  value. An error that \<^verbatim>\<open>Insert\<close> returns is the reply of the database to the last call
  made, so there is no error of the configuration. A builder with no column does not
  exist: \<^verbatim>\<open>Init\<close> panics.\<close>

theorem no_configuration_check:
  fixes ex :: "('d, 'v, 'e) executor" and b :: "'v Bulk" and b0 :: "'w Bulk"
  assumes acc: "accumulated b" and wide: "PLACEHOLDER_LIMIT < valuesPerRow b" and r: "1 \<le> rows b"
    and up: "up \<longrightarrow> columnsStr (initStr b) \<noteq> None"
    and ins: "Insert ex d b up = (out, b', d', tr)"
  shows "rowsPerBatch_of b = 0 \<and> out \<noteq> GoPanic \<and>
     (\<forall>e. out = ReturnErr e \<longrightarrow> tr \<noteq> [] \<and> reply (last tr) = Some e) \<and>
     batch b up 0 = Some (butlast (initStr b) @ appended '', '' b up, []) \<and>
     (\<exists>rp rest. tr = Prepare (butlast (initStr b) @ appended '', '' b up) rp # rest) \<and>
     Init b0 t [] = None"
proof -
  note w = wide_rows[OF acc wide r]
  let ?c = "rowsPerBatch_of b * (2 * (valuesPerRow b + 1))"
  from acc have k: "valuesPerRow b \<noteq> 0" by (simp add: accumulated_def)
  from Insert_no_panic[OF acc r up, of ex d] ins have 2: "out \<noteq> GoPanic" by simp
  note 3 = wide_first_batch[OF acc wide r up]
  from ins have loop:
    "Insert_loop ex b up (batchs_of b) (rowsPerBatch_of b) ?c 0 d [] = (out, d', tr)"
    by (auto simp: Insert_batched[OF w(2) k] split: prod.splits)
  have lt: "0 < batchs_of b" using w(3) by simp
  from Insert_loop_first_call[OF lt 3[unfolded batch_def] loop]
  have 4: "\<exists>rp rest. tr = Prepare (butlast (initStr b) @ appended '', '' b up) rp # rest" .
  have 5: "\<forall>e. out = ReturnErr e \<longrightarrow> tr \<noteq> [] \<and> reply (last tr) = Some e"
  proof (intro allI impI)
    fix e assume "out = ReturnErr e"
    with loop show "tr \<noteq> [] \<and> reply (last tr) = Some e"
      by (intro Insert_loop_error_reply) simp
  qed
  from w(1) 2 5 3 4 Init_none show ?thesis by (intro conjI)
qed

lemma wide_example:
  "accumulated (filled ''t'' (replicate 60001 ''c'') (Suc 0) (replicate 60001 (7 :: nat)))"
  "valuesPerRow (filled ''t'' (replicate 60001 ''c'') (Suc 0) (replicate 60001 (7 :: nat))) = 60001"
  "rows (filled ''t'' (replicate 60001 ''c'') (Suc 0) (replicate 60001 (7 :: nat))) = Suc 0"
  "length (vals (filled ''t'' (replicate 60001 ''c'') (Suc 0) (replicate 60001 (7 :: nat)))) = 60001"
  "placeholderStr (filled ''t'' (replicate 60001 ''c'') (Suc 0) (replicate 60001 (7 :: nat))) =
     placeholderStrHelper (filled ''t'' (replicate 60001 ''c'') (Suc 0) (replicate 60001 (7 :: nat)))"
proof -
  have c: "replicate 60001 ''c'' \<noteq> []" by simp
  have l: "length (replicate 60001 (7 :: nat)) = length (replicate 60001 ''c'')" by simp
  show "accumulated (filled ''t'' (replicate 60001 ''c'') (Suc 0) (replicate 60001 (7 :: nat)))"
    by (rule accumulated_filled[OF c l])
  show "valuesPerRow (filled ''t'' (replicate 60001 ''c'') (Suc 0) (replicate 60001 (7 :: nat))) = 60001"
    by (simp add: filled_fields(5)[OF c l])
  show "rows (filled ''t'' (replicate 60001 ''c'') (Suc 0) (replicate 60001 (7 :: nat))) = Suc 0"
    by (simp add: filled_fields(4)[OF c l])
  show "length (vals (filled ''t'' (replicate 60001 ''c'') (Suc 0) (replicate 60001 (7 :: nat)))) = 60001"
    by (simp add: length_vals_filled[OF c l])
  show "placeholderStr (filled ''t'' (replicate 60001 ''c'') (Suc 0) (replicate 60001 (7 :: nat))) =
     placeholderStrHelper (filled ''t'' (replicate 60001 ''c'') (Suc 0) (replicate 60001 (7 :: nat)))"
    by (simp add: filled_fields(2)[OF c l] filled_fields(6)[OF c l])
qed

text \<open>Claim C8 as stated fails for 60001 columns and one row: no row fits in a batch, and
  \<^verbatim>\<open>Insert\<close> prepares and executes two statements, the first one without a placeholder and
  without a value, and returns nil.\<close>

theorem wide_row_is_inserted:
  "PLACEHOLDER_LIMIT < valuesPerRow (filled ''t'' (replicate 60001 ''c'') (Suc 0) (replicate 60001 (7 :: nat))) \<and>
   rowsPerBatch_of (filled ''t'' (replicate 60001 ''c'') (Suc 0) (replicate 60001 (7 :: nat))) = 0 \<and>
   Insert accepting () (filled ''t'' (replicate 60001 ''c'') (Suc 0) (replicate 60001 (7 :: nat))) False =
     (ReturnNil, filled ''t'' (replicate 60001 ''c'') (Suc 0) (replicate 60001 (7 :: nat)), (),
      [Prepare (butlast (initStr (filled ''t'' (replicate 60001 ''c'') (Suc 0) (replicate 60001 (7 :: nat))))) None,
       Exec (butlast (initStr (filled ''t'' (replicate 60001 ''c'') (Suc 0) (replicate 60001 (7 :: nat))))) [] None,
       Prepare (butlast (initStr (filled ''t'' (replicate 60001 ''c'') (Suc 0) (replicate 60001 (7 :: nat)))
                  @ placeholderStr (filled ''t'' (replicate 60001 ''c'') (Suc 0) (replicate 60001 (7 :: nat))))) None,
       Exec (butlast (initStr (filled ''t'' (replicate 60001 ''c'') (Suc 0) (replicate 60001 (7 :: nat)))
               @ placeholderStr (filled ''t'' (replicate 60001 ''c'') (Suc 0) (replicate 60001 (7 :: nat)))))
         (vals (filled ''t'' (replicate 60001 ''c'') (Suc 0) (replicate 60001 (7 :: nat)))) None])"
proof -
  let ?b = "filled ''t'' (replicate 60001 ''c'') (Suc 0) (replicate 60001 (7 :: nat))"
  note acc = wide_example(1) and k = wide_example(2) and r = wide_example(3)
    and len = wide_example(4) and p = wide_example(5)
  have wide: "PLACEHOLDER_LIMIT < valuesPerRow ?b" by (simp add: k PLACEHOLDER_LIMIT_def)
  have r1: "1 \<le> rows ?b" by (simp add: r)
  have up: "False \<longrightarrow> columnsStr (initStr ?b) \<noteq> None" by simp
  note w = wide_rows[OF acc wide r1]
  have B: "batchs_of ?b = Suc (Suc 0)"
    by (rule batchs_of_unique) (simp_all add: len PLACEHOLDER_LIMIT_def)
  have S: "Suc (Suc 0) = batchs_of ?b" by (simp add: B)
  have b0: "batch ?b False 0 = Some (butlast (initStr ?b), [])"
    using wide_first_batch[OF acc wide r1 up] by (simp add: appended_def)
  have b1: "batch ?b False (Suc 0) = Some (butlast (initStr ?b @ placeholderStr ?b), vals ?b)"
    using batch_last[OF acc w(2) S up] by (simp add: appended_def w(1) r p)
  from Insert_loop_plan[OF acc w(2) succeeds_accepting up, of "()"]
  have "Insert accepting () ?b False =
      (ReturnNil, ?b, (), ok_calls (map (\<lambda>j. the (batch ?b False j)) [0..<batchs_of ?b]))"
    by simp
  then have ins: "Insert accepting () ?b False =
      (ReturnNil, ?b, (),
       [Prepare (butlast (initStr ?b)) None, Exec (butlast (initStr ?b)) [] None,
        Prepare (butlast (initStr ?b @ placeholderStr ?b)) None,
        Exec (butlast (initStr ?b @ placeholderStr ?b)) (vals ?b) None])"
    by (simp add: B b0 b1 ok_calls_def)
  from wide w(1) ins show ?thesis by (intro conjI)
qed

text \<open>Claim C8 as amended, for 60001 columns and one row.\<close>

theorem no_configuration_check_witness:
  "accumulated (filled ''t'' (replicate 60001 ''c'') (Suc 0) (replicate 60001 (7 :: nat))) \<and>
   PLACEHOLDER_LIMIT < valuesPerRow (filled ''t'' (replicate 60001 ''c'') (Suc 0) (replicate 60001 (7 :: nat))) \<and>
   1 \<le> rows (filled ''t'' (replicate 60001 ''c'') (Suc 0) (replicate 60001 (7 :: nat))) \<and>
   fst (Insert accepting () (filled ''t'' (replicate 60001 ''c'') (Suc 0) (replicate 60001 (7 :: nat))) False)
     \<noteq> GoPanic \<and>
   (\<exists>rp rest. snd (snd (snd (Insert accepting ()
        (filled ''t'' (replicate 60001 ''c'') (Suc 0) (replicate 60001 (7 :: nat))) False))) =
      Prepare (butlast (initStr (filled ''t'' (replicate 60001 ''c'') (Suc 0) (replicate 60001 (7 :: nat))))) rp
        # rest) \<and>
   Init (Bulk_zero :: nat Bulk) ''t'' [] = None"
proof -
  let ?b = "filled ''t'' (replicate 60001 ''c'') (Suc 0) (replicate 60001 (7 :: nat))"
  let ?I = "Insert accepting () ?b False"
  note acc = wide_example(1) and k = wide_example(2) and r = wide_example(3)
  have wide: "PLACEHOLDER_LIMIT < valuesPerRow ?b" by (simp add: k PLACEHOLDER_LIMIT_def)
  have r1: "1 \<le> rows ?b" by (simp add: r)
  have up: "False \<longrightarrow> columnsStr (initStr ?b) \<noteq> None" by simp
  have ins: "?I = (fst ?I, fst (snd ?I), fst (snd (snd ?I)), snd (snd (snd ?I)))"
    by (simp only: prod.collapse)
  from no_configuration_check[OF acc wide r1 up ins, of "Bulk_zero :: nat Bulk" "''t''"]
  have 1: "fst ?I \<noteq> GoPanic"
    and 2: "\<exists>rp rest. snd (snd (snd ?I)) = Prepare (butlast (initStr ?b) @ appended '', '' ?b False) rp # rest"
    and 3: "Init (Bulk_zero :: nat Bulk) ''t'' [] = None"
    by simp_all
  from 2 have p2: "\<exists>rp rest. snd (snd (snd ?I)) = Prepare (butlast (initStr ?b)) rp # rest"
    by (simp add: appended_def)
  from acc wide r1 1 p2 3 show ?thesis by (intro conjI)
qed

end
